theory Spec2Isabelle
  imports Main "HOL-Library.Sublist"
begin

section \<open>Text\<close>

text \<open>
  A Python \<open>str\<close> is a sequence of code points. The model covers the texts whose code
  points are below 256 and writes one \<open>char\<close> for each code point, so that
  \<open>length\<close> counts what Python's \<open>len\<close> counts. The character classes below are
  the ones of Python 3 on that range.
\<close>

definition code_point :: "char \<Rightarrow> nat" where
  "code_point c = of_char c"

text \<open>
  The class \<open>\w\<close> of module \<open>re\<close> on a \<open>str\<close> pattern: the alphanumeric
  characters of Unicode and the underscore. Below 256 these are the ASCII letters and
  digits, the underscore, and the letters, superscript digits and fractions of Latin-1.
\<close>

definition is_word_char :: "char \<Rightarrow> bool" where
  "is_word_char c =
     (let n = code_point c in
        (48 \<le> n \<and> n \<le> 57) \<or> (65 \<le> n \<and> n \<le> 90) \<or> n = 95 \<or> (97 \<le> n \<and> n \<le> 122)
        \<or> n = 170 \<or> n = 178 \<or> n = 179 \<or> n = 181 \<or> n = 185 \<or> n = 186
        \<or> (188 \<le> n \<and> n \<le> 190) \<or> (192 \<le> n \<and> n \<le> 214)
        \<or> (216 \<le> n \<and> n \<le> 246) \<or> (248 \<le> n \<and> n \<le> 255))"

text \<open>The class \<open>[A-Za-z0-9_]\<close>, the identifier characters of the call syntax.\<close>

definition is_ident_char :: "char \<Rightarrow> bool" where
  "is_ident_char c =
     (let n = code_point c in
        (48 \<le> n \<and> n \<le> 57) \<or> (65 \<le> n \<and> n \<le> 90) \<or> n = 95 \<or> (97 \<le> n \<and> n \<le> 122))"

text \<open>The dot of \<open>re\<close> without \<open>DOTALL\<close>: any character but the line feed.\<close>

definition is_dot_char :: "char \<Rightarrow> bool" where
  "is_dot_char c = (c \<noteq> CHR 0x0A)"

text \<open>The characters \<open>str.strip()\<close> removes: those with \<open>isspace()\<close> true.\<close>

definition is_space :: "char \<Rightarrow> bool" where
  "is_space c =
     (let n = code_point c in
        (9 \<le> n \<and> n \<le> 13) \<or> (28 \<le> n \<and> n \<le> 32) \<or> n = 133 \<or> n = 160)"

definition strip :: "string \<Rightarrow> string" where
  "strip s = rev (dropWhile is_space (rev (dropWhile is_space s)))"

definition startswith :: "string \<Rightarrow> string \<Rightarrow> bool" where
  "startswith s p = prefix p s"

text \<open>\<open>str.lower()\<close>: the capital letters of ASCII and of Latin-1 move up by 32.\<close>

definition lower_char :: "char \<Rightarrow> char" where
  "lower_char c =
     (let n = code_point c in
        if (65 \<le> n \<and> n \<le> 90) \<or> (192 \<le> n \<and> n \<le> 214) \<or> (216 \<le> n \<and> n \<le> 222)
        then char_of (n + 32) else c)"

definition lower :: "string \<Rightarrow> string" where
  "lower s = map lower_char s"

text \<open>\<open>t in s\<close> on strings: \<open>t\<close> occurs in \<open>s\<close> as a contiguous piece.\<close>

definition str_in :: "string \<Rightarrow> string \<Rightarrow> bool" where
  "str_in t s = sublist t s"

section \<open>The call-syntax parser\<close>

text \<open>
  \<open>process_query\<close> finds the calls with
  \<^verbatim>\<open>re.findall(r'<function=(\w+)\{(.*?)\}>', assistant_content)\<close>.
  The pattern is a sequence of pieces, each matched by a backtracking step that hands
  the rest of the text to the pieces after it (the continuation \<open>k\<close>) and tries its
  next alternative when they fail: a literal has one alternative; the greedy \<open>\w+\<close>
  tries its longest run first and then shorter ones; the lazy \<open>.*?\<close> tries the empty
  run first and then longer ones. A group hands the text it matched to the continuation.
\<close>

definition lit :: "string \<Rightarrow> (string \<Rightarrow> 'a option) \<Rightarrow> string \<Rightarrow> 'a option" where
  "lit p k s = (if prefix p s then k (drop (length p) s) else None)"

fun star_greedy ::
  "(char \<Rightarrow> bool) \<Rightarrow> (string \<Rightarrow> string \<Rightarrow> 'a option) \<Rightarrow> string \<Rightarrow> string \<Rightarrow> 'a option" where
  "star_greedy P k acc [] = k acc []"
| "star_greedy P k acc (c # cs) =
     (if P c then
        (case star_greedy P k (acc @ [c]) cs of
           Some r \<Rightarrow> Some r
         | None \<Rightarrow> k acc (c # cs))
      else k acc (c # cs))"

definition plus_greedy ::
  "(char \<Rightarrow> bool) \<Rightarrow> (string \<Rightarrow> string \<Rightarrow> 'a option) \<Rightarrow> string \<Rightarrow> 'a option" where
  "plus_greedy P k s =
     (case s of [] \<Rightarrow> None | c # cs \<Rightarrow> if P c then star_greedy P k [c] cs else None)"

fun star_lazy ::
  "(char \<Rightarrow> bool) \<Rightarrow> (string \<Rightarrow> string \<Rightarrow> 'a option) \<Rightarrow> string \<Rightarrow> string \<Rightarrow> 'a option" where
  "star_lazy P k acc [] = k acc []"
| "star_lazy P k acc (c # cs) =
     (case k acc (c # cs) of
        Some r \<Rightarrow> Some r
      | None \<Rightarrow> if P c then star_lazy P k (acc @ [c]) cs else None)"

text \<open>
  One attempt of the pattern at the start of \<open>s\<close>: the two groups and the text after
  the match.
\<close>

definition match_here :: "string \<Rightarrow> ((string \<times> string) \<times> string) option" where
  "match_here s =
     lit ''<function=''
       (plus_greedy is_word_char (\<lambda>name.
          lit ''{''
            (star_lazy is_dot_char (\<lambda>args.
               lit ''}>'' (\<lambda>rest. Some ((name, args), rest))) []))) s"

lemma lit_Some:
  assumes "lit p k s = Some r"
  shows "\<exists>s'. k s' = Some r \<and> s = p @ s'"
  using assms by (auto simp: lit_def prefix_def split: if_splits)

lemma star_greedy_Some:
  "star_greedy P k acc s = Some r \<Longrightarrow>
     \<exists>a s'. k (acc @ a) s' = Some r \<and> s = a @ s' \<and> (\<forall>c\<in>set a. P c)"
proof (induction s arbitrary: acc)
  case Nil
  then show ?case by auto
next
  case (Cons c cs)
  show ?case
  proof (cases "P c \<and> star_greedy P k (acc @ [c]) cs \<noteq> None")
    case True
    then have "star_greedy P k (acc @ [c]) cs = Some r"
      using Cons.prems by (auto split: option.splits)
    from Cons.IH [OF this] obtain a s'
      where "k ((acc @ [c]) @ a) s' = Some r" "cs = a @ s'" "\<forall>x\<in>set a. P x"
      by blast
    with True have "k (acc @ (c # a)) s' = Some r \<and> c # cs = (c # a) @ s' \<and> (\<forall>x\<in>set (c # a). P x)"
      by simp
    then show ?thesis by blast
  next
    case False
    then have "k (acc @ []) (c # cs) = Some r"
      using Cons.prems by (auto split: option.splits if_splits)
    then show ?thesis by fastforce
  qed
qed

lemma star_lazy_Some:
  "star_lazy P k acc s = Some r \<Longrightarrow>
     \<exists>a s'. k (acc @ a) s' = Some r \<and> s = a @ s' \<and> (\<forall>c\<in>set a. P c)"
proof (induction s arbitrary: acc)
  case Nil
  then show ?case by auto
next
  case (Cons c cs)
  show ?case
  proof (cases "k acc (c # cs)")
    case (Some r')
    then have "k (acc @ []) (c # cs) = Some r"
      using Cons.prems by simp
    then show ?thesis by fastforce
  next
    case None
    then have pc: "P c" and "star_lazy P k (acc @ [c]) cs = Some r"
      using Cons.prems by (auto split: if_splits)
    from Cons.IH [OF this(2)] obtain a s'
      where "k ((acc @ [c]) @ a) s' = Some r" "cs = a @ s'" "\<forall>x\<in>set a. P x"
      by blast
    with pc have "k (acc @ (c # a)) s' = Some r \<and> c # cs = (c # a) @ s' \<and> (\<forall>x\<in>set (c # a). P x)"
      by simp
    then show ?thesis by blast
  qed
qed

lemma plus_greedy_Some:
  assumes "plus_greedy P k s = Some r"
  shows "\<exists>a s'. k a s' = Some r \<and> s = a @ s' \<and> a \<noteq> [] \<and> (\<forall>c\<in>set a. P c)"
proof (cases s)
  case Nil
  with assms show ?thesis by (simp add: plus_greedy_def)
next
  case (Cons c cs)
  with assms have pc: "P c" and "star_greedy P k [c] cs = Some r"
    by (auto simp: plus_greedy_def split: if_splits)
  from star_greedy_Some [OF this(2)] obtain a s'
    where "k ([c] @ a) s' = Some r" "cs = a @ s'" "\<forall>x\<in>set a. P x"
    by blast
  with pc Cons have "k (c # a) s' = Some r \<and> s = (c # a) @ s' \<and> c # a \<noteq> [] \<and> (\<forall>x\<in>set (c # a). P x)"
    by simp
  then show ?thesis by blast
qed

text \<open>What a match consists of: the fragment read off the start of the text.\<close>

lemma match_here_Some:
  assumes "match_here s = Some ((name, args), rest)"
  shows "s = ''<function='' @ name @ ''{'' @ args @ ''}>'' @ rest"
    and "name \<noteq> []"
    and "\<forall>c\<in>set name. is_word_char c"
    and "\<forall>c\<in>set args. is_dot_char c"
proof -
  from assms obtain s1 where s1: "s = ''<function='' @ s1"
    and k1: "plus_greedy is_word_char (\<lambda>name.
          lit ''{''
            (star_lazy is_dot_char (\<lambda>args.
               lit ''}>'' (\<lambda>rest. Some ((name, args), rest))) [])) s1
        = Some ((name, args), rest)"
    unfolding match_here_def by (blast dest: lit_Some)
  from plus_greedy_Some [OF k1] obtain n s2 where s2: "s1 = n @ s2"
    and n: "n \<noteq> []" "\<forall>c\<in>set n. is_word_char c"
    and k2: "lit ''{'' (star_lazy is_dot_char (\<lambda>args.
               lit ''}>'' (\<lambda>rest. Some ((n, args), rest))) []) s2
        = Some ((name, args), rest)"
    by blast
  from lit_Some [OF k2] obtain s3 where s3: "s2 = ''{'' @ s3"
    and k3: "star_lazy is_dot_char (\<lambda>args.
               lit ''}>'' (\<lambda>rest. Some ((n, args), rest))) [] s3
        = Some ((name, args), rest)"
    by blast
  from star_lazy_Some [OF k3] obtain a s4 where s4: "s3 = a @ s4"
    and a: "\<forall>c\<in>set a. is_dot_char c"
    and k4: "lit ''}>'' (\<lambda>rest. Some ((n, [] @ a), rest)) s4 = Some ((name, args), rest)"
    by blast
  from lit_Some [OF k4] obtain s5 where s5: "s4 = ''}>'' @ s5"
    and k5: "Some ((n, [] @ a), s5) = Some ((name, args), rest)"
    by blast
  from k5 have eq: "n = name" "a = args" "s5 = rest" by simp_all
  show "s = ''<function='' @ name @ ''{'' @ args @ ''}>'' @ rest"
    using s1 s2 s3 s4 s5 eq by simp
  show "name \<noteq> []" using n eq by simp
  show "\<forall>c\<in>set name. is_word_char c" using n eq by simp
  show "\<forall>c\<in>set args. is_dot_char c" using a eq by simp
qed

lemma match_here_shorter:
  assumes "match_here s = Some (m, rest)"
  shows "length rest < length s"
proof -
  obtain name args where m: "m = (name, args)" by (cases m)
  from match_here_Some(1) [OF assms [unfolded m]] show ?thesis by simp
qed

text \<open>
  \<open>re.findall\<close>: the matches from left to right, none overlapping another. The scan
  tries the pattern at the current position; after a match it goes on where the match
  ended (a match of this pattern is never empty), otherwise one character further. With
  two groups in the pattern each match is reported as the pair of their texts.
\<close>

function findall :: "string \<Rightarrow> (string \<times> string) list" where
  "findall s =
     (case match_here s of
        Some (m, rest) \<Rightarrow> m # findall rest
      | None \<Rightarrow> (case s of [] \<Rightarrow> [] | c # cs \<Rightarrow> findall cs))"
  by pat_completeness auto
termination
  by (relation "measure length") (auto dest: match_here_shorter)

section \<open>Python values\<close>

text \<open>
  The values a tool result or a decoded argument may be: \<open>None\<close>, booleans, integers,
  strings, lists, dictionaries keyed by strings, and objects of a named class with
  attributes (such as the content items of the tool protocol).
\<close>

datatype pyval =
    PNone
  | PBool bool
  | PInt int
  | PStr string
  | PList "pyval list"
  | PDict "(string \<times> pyval) list"
  | PObj string "(string \<times> pyval) list"

text \<open>
  An exception is carried as the text \<open>str(e)\<close> gives: all the code reads of it.
  These are the exceptions of class \<open>Exception\<close>, the ones the handlers of the code
  catch.
\<close>

type_synonym exn = string

fun type_name :: "pyval \<Rightarrow> string" where
  "type_name PNone = ''NoneType''"
| "type_name (PBool b) = ''bool''"
| "type_name (PInt i) = ''int''"
| "type_name (PStr s) = ''str''"
| "type_name (PList xs) = ''list''"
| "type_name (PDict kvs) = ''dict''"
| "type_name (PObj cls attrs) = cls"

text \<open>The decimal digit \<open>d\<close>, for \<open>d\<close> below ten.\<close>

definition digit_char :: "nat \<Rightarrow> char" where
  "digit_char d = ''0123456789'' ! d"

function show_nat :: "nat \<Rightarrow> string" where
  "show_nat n = (if n < 10 then [digit_char n] else show_nat (n div 10) @ [digit_char (n mod 10)])"
  by pat_completeness auto
termination
  by (relation "measure id") auto

definition show_int :: "int \<Rightarrow> string" where
  "show_int i = (if i < 0 then ''-'' @ show_nat (nat (- i)) else show_nat (nat i))"

text \<open>
  The collaborators of the loop. Each external call is an oracle: what the n-th call of
  its kind answers, given its arguments. \<open>Inl e\<close> is the call raising \<open>e\<close>.
  \<^item> \<open>completions_create\<close>: the completion provider, given the messages sent; the answer
    is the content of the first choice, which may be \<open>None\<close>; a response without a
    first choice raises inside \<open>generate_completion\<close> like a failed call.
  \<^item> \<open>call_tool\<close>: \<open>session.call_tool(name, args)\<close> followed by \<open>.content\<close>.
  \<^item> \<open>makedirs\<close>, \<open>write_json\<close>: the two file-system steps of \<open>log_conversation\<close>,
    \<open>Some e\<close> when the step raises.
  \<^item> \<open>json_loads\<close>, \<open>json_dumps\<close> (with \<open>indent=2\<close>), \<open>py_str\<close>: the library
    functions \<open>json.loads\<close>, \<open>json.dumps\<close> and \<open>str\<close> on containers and objects.
\<close>

type_synonym message = "(string \<times> string) list"

record env =
  completions_create :: "nat \<Rightarrow> message list \<Rightarrow> exn + string option"
  call_tool :: "nat \<Rightarrow> string \<Rightarrow> pyval \<Rightarrow> exn + pyval"
  makedirs :: "nat \<Rightarrow> exn option"
  write_json :: "nat \<Rightarrow> message list \<Rightarrow> exn option"
  json_loads :: "string \<Rightarrow> exn + pyval"
  json_dumps :: "pyval \<Rightarrow> exn + string"
  py_str :: "pyval \<Rightarrow> exn + string"

text \<open>\<open>str(v)\<close>, also what an f-string does with \<open>{v}\<close>.\<close>

definition str_of :: "env \<Rightarrow> pyval \<Rightarrow> exn + string" where
  "str_of env v =
     (case v of
        PStr s \<Rightarrow> Inr s
      | PNone \<Rightarrow> Inr ''None''
      | PBool b \<Rightarrow> Inr (if b then ''True'' else ''False'')
      | PInt i \<Rightarrow> Inr (show_int i)
      | _ \<Rightarrow> py_str env v)"

section \<open>The result formatter\<close>

fun get_attr :: "pyval \<Rightarrow> string \<Rightarrow> pyval option" where
  "get_attr (PObj cls attrs) a = map_of attrs a"
| "get_attr _ a = None"

fun dict_item :: "pyval \<Rightarrow> string \<Rightarrow> pyval option" where
  "dict_item (PDict kvs) k = map_of kvs k"
| "dict_item _ k = None"

text \<open>The body of the loop over a list payload: what is appended for one item.\<close>

definition format_item :: "env \<Rightarrow> pyval \<Rightarrow> pyval" where
  "format_item env item =
     (case get_attr item ''text'' of
        Some t \<Rightarrow> t
      | None \<Rightarrow>
          (case dict_item item ''text'' of
             Some t \<Rightarrow> t
           | None \<Rightarrow>
               (case str_of env item of
                  Inr s \<Rightarrow> PStr s
                | Inl e \<Rightarrow> PStr ''[Unprintable item]'')))"

fun join :: "string \<Rightarrow> string list \<Rightarrow> string" where
  "join sep [] = []"
| "join sep [x] = x"
| "join sep (x # y # ys) = x @ sep @ join sep (y # ys)"

fun first_non_str :: "nat \<Rightarrow> pyval list \<Rightarrow> (nat \<times> pyval) option" where
  "first_non_str i [] = None"
| "first_non_str i (PStr s # vs) = first_non_str (Suc i) vs"
| "first_non_str i (v # vs) = Some (i, v)"

fun the_str :: "pyval \<Rightarrow> string" where
  "the_str (PStr s) = s"
| "the_str _ = []"

text \<open>\<open>"\n".join(result)\<close>: a \<open>TypeError\<close> at the first piece that is not a string.\<close>

definition join_newline :: "pyval list \<Rightarrow> exn + string" where
  "join_newline vs =
     (case first_non_str 0 vs of
        Some (i, v) \<Rightarrow>
          Inl (''sequence item '' @ show_nat i @ '': expected str instance, ''
               @ type_name v @ '' found'')
      | None \<Rightarrow> Inr (join [CHR 0x0A] (map the_str vs)))"

definition str_fallback :: "env \<Rightarrow> pyval \<Rightarrow> exn + pyval" where
  "str_fallback env content =
     (case str_of env content of
        Inr s \<Rightarrow> Inr (PStr s)
      | Inl e \<Rightarrow> Inr (PStr ''[Unprintable content]''))"

definition format_tool_result :: "env \<Rightarrow> pyval \<Rightarrow> exn + pyval" where
  "format_tool_result env content =
     (case content of
        PNone \<Rightarrow> Inr (PStr [])
      | PStr s \<Rightarrow> Inr (PStr s)
      | PList items \<Rightarrow>
          (case join_newline (map (format_item env) items) of
             Inl e \<Rightarrow> Inl e
           | Inr s \<Rightarrow> Inr (PStr s))
      | PDict kvs \<Rightarrow>
          (case map_of kvs ''text'' of
             Some t \<Rightarrow> Inr t
           | None \<Rightarrow>
               (case json_dumps env content of
                  Inr s \<Rightarrow> Inr (PStr s)
                | Inl e \<Rightarrow> str_fallback env content))
      | _ \<Rightarrow> str_fallback env content)"

section \<open>Messages and the objects of one query\<close>

text \<open>
  A message is a dictionary with string values, \<open>{"role": ..., "content": ...}\<close>.
  The list \<open>self.messages\<close> holds references to message objects, and
  \<open>generate_completion\<close> works on a shallow copy of it, so the model keeps the
  objects in a heap (an object's address is its index) and the list as a list of
  addresses. The state of a query is the heap, \<open>self.messages\<close> and the number of
  calls made to each collaborator so far.
\<close>

record state =
  heap :: "message list"
  messages :: "nat list"
  n_llm :: nat
  n_tool :: nat
  n_log :: nat

text \<open>The conversation as a caller reads it: the objects the list refers to.\<close>

definition deref :: "message list \<Rightarrow> nat list \<Rightarrow> message list" where
  "deref h as = map (\<lambda>a. h ! a) as"

definition conversation :: "state \<Rightarrow> message list" where
  "conversation st = deref (heap st) (messages st)"

text \<open>\<open>self.messages.append(m)\<close> for a message \<open>m\<close> just built.\<close>

definition append_message :: "message \<Rightarrow> state \<Rightarrow> state" where
  "append_message m st =
     st\<lparr>heap := heap st @ [m], messages := messages st @ [length (heap st)]\<rparr>"

definition has_role :: "string \<Rightarrow> message \<Rightarrow> bool" where
  "has_role r m = (map_of m ''role'' = Some r)"

text \<open>\<open>d[k] = v\<close> on a dictionary: in place for a key that is there, else a new entry.\<close>

fun dict_set :: "string \<Rightarrow> 'v \<Rightarrow> (string \<times> 'v) list \<Rightarrow> (string \<times> 'v) list" where
  "dict_set k v [] = [(k, v)]"
| "dict_set k v ((k', v') # kvs) =
     (if k' = k then (k, v) # kvs else (k', v') # dict_set k v kvs)"

text \<open>A name between apostrophes, as \<open>'{tool_name}'\<close> and the text of a \<open>KeyError\<close> have it.\<close>

definition quoted :: "string \<Rightarrow> string" where
  "quoted s = [CHR 0x27] @ s @ [CHR 0x27]"

section \<open>The completion request\<close>

record tool =
  tool_name :: string
  description :: string
  input_schema :: pyval

definition backticked :: "string \<Rightarrow> string" where
  "backticked name = ''`'' @ name @ ''`''"

definition create_system_message :: "string list \<Rightarrow> message" where
  \<open>create_system_message tool_names =
     (let available_tools_str = join '', '' (map backticked tool_names);
          content = ''You are a helpful assistant for the Vespucci.ai platform. '';
          content =
            (if tool_names \<noteq> [] then
               content
               @ ''You have access to the following MCP tools: '' @ available_tools_str @ ''. ''
               @ ''These tools can help you gather information and perform various tasks. ''
               @ ''To use tools, format your response like this: <function=tool_name{"param":"value"}>. ''
               @ ''For example, to search for information, use: <function=search{"query":"your search query","searchType":"web"}>. ''
               @ ''Always include explanatory text along with any function calls. ''
               @ ''IMPORTANT: ONLY use the specific tool names listed above: '' @ available_tools_str @ ''. ''
               @ ''Do not invent or try to use tools that aren't in this list.''
             else content)
      in [(''role'', ''system''), (''content'', content)])\<close>

definition tool_terms :: "string list" where
  "tool_terms = [''search'', ''find'', ''lookup'', ''information'', ''data'', ''how to'', ''what is'']"

definition encouragement :: string where
  "encouragement =
     '' For queries that require searching for information or performing specific tasks, ''
     @ ''please use the available tools to get real-time information. ''
     @ ''Always use <function=tool_name{...}> syntax when appropriate.''"

text \<open>
  \<open>should_encourage_tools\<close>: at least three messages to send, some tool declared, and
  one of the terms in the lowered content of the last user message.
\<close>

definition should_encourage_tools :: "tool list \<Rightarrow> message list \<Rightarrow> bool" where
  "should_encourage_tools tools msgs =
     (if length msgs \<ge> 3 \<and> tools \<noteq> [] then
        (case find (has_role ''user'') (rev msgs) of
           None \<Rightarrow> False
         | Some msg \<Rightarrow>
             (let last_user_msg = lower (case map_of msg ''content'' of None \<Rightarrow> [] | Some c \<Rightarrow> c)
              in last_user_msg \<noteq> [] \<and> list_ex (\<lambda>term. str_in term last_user_msg) tool_terms))
      else False)"

text \<open>
  The reminder goes to the first system message of the copied list, by
  \<open>messages_copy[i]["content"] += ...\<close>: an update of that message object in place,
  and a \<open>KeyError\<close> when it has no content.
\<close>

fun first_system :: "message list \<Rightarrow> nat list \<Rightarrow> nat option" where
  "first_system h [] = None"
| "first_system h (a # as) = (if has_role ''system'' (h ! a) then Some a else first_system h as)"

definition encourage :: "message list \<Rightarrow> nat list \<Rightarrow> exn + message list" where
  "encourage h as =
     (case first_system h as of
        None \<Rightarrow> Inr h
      | Some a \<Rightarrow>
          (case map_of (h ! a) ''content'' of
             None \<Rightarrow> Inl (quoted ''content'')
           | Some c \<Rightarrow> Inr (h[a := dict_set ''content'' (c @ encouragement) (h ! a)])))"

text \<open>
  \<open>generate_completion\<close>: copy the list, put a fresh system message in front of the
  copy when it has none, add the reminder, send the copy. The result is what the
  provider answers, or the exception raised on the way (logged and raised again); the
  state returned has the objects as the call left them.
\<close>

definition generate_completion :: "env \<Rightarrow> tool list \<Rightarrow> state \<Rightarrow> (exn + string option) \<times> state" where
  "generate_completion env tools st =
     (let messages_copy = messages st;
          tool_names = map tool_name tools;
          h = heap st;
          (h1, messages_copy) =
            (if \<not> list_ex (\<lambda>a. has_role ''system'' (h ! a)) messages_copy
             then (h @ [create_system_message tool_names], length h # messages_copy)
             else (h, messages_copy))
      in case (if should_encourage_tools tools (deref h1 messages_copy)
               then encourage h1 messages_copy else Inr h1) of
           Inl e \<Rightarrow> (Inl e, st\<lparr>heap := h1\<rparr>)
         | Inr h2 \<Rightarrow>
             (completions_create env (n_llm st) (deref h2 messages_copy),
              st\<lparr>heap := h2, n_llm := Suc (n_llm st)\<rparr>))"

section \<open>The conversation log\<close>

text \<open>
  One record of \<open>log_conversation\<close>: the role (a \<open>KeyError\<close> without one), the
  content (the empty string when there is none), and the \<open>tool_calls\<close> and
  \<open>tool_call_id\<close> entries when present.
\<close>

definition serializable_message :: "message \<Rightarrow> exn + message" where
  "serializable_message m =
     (case map_of m ''role'' of
        None \<Rightarrow> Inl (quoted ''role'')
      | Some r \<Rightarrow>
          Inr ([(''role'', r),
                (''content'', (case map_of m ''content'' of None \<Rightarrow> [] | Some c \<Rightarrow> c))]
               @ (case map_of m ''tool_calls'' of None \<Rightarrow> [] | Some t \<Rightarrow> [(''tool_calls'', t)])
               @ (case map_of m ''tool_call_id'' of None \<Rightarrow> [] | Some t \<Rightarrow> [(''tool_call_id'', t)])))"

fun serializable_conversation :: "message list \<Rightarrow> exn + message list" where
  "serializable_conversation [] = Inr []"
| "serializable_conversation (m # ms) =
     (case serializable_message m of
        Inl e \<Rightarrow> Inl e
      | Inr r \<Rightarrow>
          (case serializable_conversation ms of
             Inl e \<Rightarrow> Inl e
           | Inr rs \<Rightarrow> Inr (r # rs)))"

text \<open>
  \<open>log_conversation\<close>: make the directory, build the records, write the file. Each
  step may raise, and the exception leaves the function (the handlers inside log it and
  raise it again). \<open>Some e\<close> is the call raising \<open>e\<close>.
\<close>

definition log_conversation :: "env \<Rightarrow> state \<Rightarrow> exn option \<times> state" where
  "log_conversation env st =
     (let st' = st\<lparr>n_log := Suc (n_log st)\<rparr> in
      case makedirs env (n_log st) of
        Some e \<Rightarrow> (Some e, st')
      | None \<Rightarrow>
          (case serializable_conversation (conversation st) of
             Inl e \<Rightarrow> (Some e, st')
           | Inr records \<Rightarrow> (write_json env (n_log st) records, st')))"

section \<open>The tool-invocation loop\<close>

definition user_message :: "string \<Rightarrow> message" where
  "user_message query = [(''role'', ''user''), (''content'', query)]"

definition assistant_message :: "string \<Rightarrow> message" where
  "assistant_message assistant_content = [(''role'', ''assistant''), (''content'', assistant_content)]"

definition tool_result_message :: "string \<Rightarrow> string \<Rightarrow> message" where
  "tool_result_message name content =
     [(''role'', ''user''), (''content'', ''Tool '' @ quoted name @ '' returned: '' @ content)]"

definition tool_error_message :: "string \<Rightarrow> exn \<Rightarrow> message" where
  "tool_error_message name e =
     [(''role'', ''user''), (''content'', ''Error using tool '' @ quoted name @ '': '' @ e)]"

definition error_message :: "exn \<Rightarrow> message" where
  "error_message e =
     [(''role'', ''assistant''), (''content'', ''I'm sorry, I encountered an error: '' @ e)]"

text \<open>
  The argument text as it is handed to \<open>json.loads\<close>: wrapped in braces unless its
  first character after leading white space is an opening brace.
\<close>

definition wrap_args :: "string \<Rightarrow> string" where
  "wrap_args tool_args_str =
     (if \<not> startswith (strip tool_args_str) ''{''
      then ''{'' @ tool_args_str @ ''}'' else tool_args_str)"

text \<open>
  The \<open>try\<close> block for one call: decode, call the tool, format, append the result as
  a user message, log. \<open>Some e\<close> with the state reached is the block raising \<open>e\<close>.
\<close>

definition try_call :: "env \<Rightarrow> string \<times> string \<Rightarrow> state \<Rightarrow> exn option \<times> state" where
  "try_call env call st =
     (case call of (name, tool_args_str) \<Rightarrow>
        (case json_loads env (wrap_args tool_args_str) of
           Inl e \<Rightarrow> (Some e, st)
         | Inr tool_args \<Rightarrow>
             (let st1 = st\<lparr>n_tool := Suc (n_tool st)\<rparr> in
              case call_tool env (n_tool st) name tool_args of
                Inl e \<Rightarrow> (Some e, st1)
              | Inr result_content \<Rightarrow>
                  (case format_tool_result env result_content of
                     Inl e \<Rightarrow> (Some e, st1)
                   | Inr content \<Rightarrow>
                       (case str_of env content of
                          Inl e \<Rightarrow> (Some e, st1)
                        | Inr text \<Rightarrow>
                            log_conversation env
                              (append_message (tool_result_message name text) st1))))))"

text \<open>
  One turn of the \<open>for\<close> loop: the \<open>try\<close> block and its handler, which appends the
  error notice and logs. An exception of that last log write is not handled here.
\<close>

definition call_one :: "env \<Rightarrow> string \<times> string \<Rightarrow> state \<Rightarrow> exn option \<times> state" where
  "call_one env call st =
     (case try_call env call st of
        (None, st1) \<Rightarrow> (None, st1)
      | (Some e, st1) \<Rightarrow>
          log_conversation env (append_message (tool_error_message (fst call) e) st1))"

fun process_calls :: "env \<Rightarrow> (string \<times> string) list \<Rightarrow> state \<Rightarrow> exn option \<times> state" where
  "process_calls env [] st = (None, st)"
| "process_calls env (call # calls) st =
     (case call_one env call st of
        (Some e, st1) \<Rightarrow> (Some e, st1)
      | (None, st1) \<Rightarrow> process_calls env calls st1)"

text \<open>How one turn of the \<open>while\<close> loop ends.\<close>

datatype outcome = Break state | Raise exn state | Continue state

text \<open>
  \<open>response.choices[0].message.content or ""\<close>: the empty string for \<open>None\<close>
  (and for the empty string).
\<close>

definition content_text :: "string option \<Rightarrow> string" where
  "content_text content = (case content of None \<Rightarrow> [] | Some c \<Rightarrow> c)"

definition round :: "env \<Rightarrow> tool list \<Rightarrow> state \<Rightarrow> outcome" where
  "round env tools st =
     (case generate_completion env tools st of
        (Inl e, st1) \<Rightarrow> Raise e st1
      | (Inr content, st1) \<Rightarrow>
          (let assistant_content = content_text content;
               function_matches = findall assistant_content
           in if function_matches = [] then
                (case log_conversation env
                        (append_message (assistant_message assistant_content) st1) of
                   (Some e, st2) \<Rightarrow> Raise e st2
                 | (None, st2) \<Rightarrow> Break st2)
              else
                (case log_conversation env
                        (append_message (assistant_message assistant_content) st1) of
                   (Some e, st2) \<Rightarrow> Raise e st2
                 | (None, st2) \<Rightarrow>
                     (case process_calls env function_matches st2 of
                        (Some e, st3) \<Rightarrow> Raise e st3
                      | (None, st3) \<Rightarrow> Continue st3))))"

text \<open>
  The \<open>while True\<close> loop has no bound on its turns: \<open>None\<close> is the loop running for
  ever. Otherwise the result is the exception that left the loop, if any, and the state.
\<close>

partial_function (option) conversation_loop ::
  "env \<Rightarrow> tool list \<Rightarrow> state \<Rightarrow> (exn option \<times> state) option" where
  "conversation_loop env tools st =
     (case round env tools st of
        Break st' \<Rightarrow> Some (None, st')
      | Raise e st' \<Rightarrow> Some (Some e, st')
      | Continue st' \<Rightarrow> conversation_loop env tools st')"

text \<open>
  \<open>process_query\<close>, started with the numbers of calls made before it: the seed
  message, the loop, and the handler around both, which answers with the messages and
  an assistant message that reports the exception. The result is the list returned and
  the state left behind. The handler starts the list again from the seed message and
  the report when the list is empty or has no user message; the model then puts both
  into fresh cells, which read the same.
\<close>

definition handle_error :: "string \<Rightarrow> exn \<Rightarrow> state \<Rightarrow> state" where
  "handle_error query e st =
     (if messages st = [] \<or> \<not> list_ex (has_role ''user'') (conversation st)
      then st\<lparr>heap := heap st @ [user_message query, error_message e],
              messages := [length (heap st), Suc (length (heap st))]\<rparr>
      else append_message (error_message e) st)"

text \<open>The state after \<open>self.messages = [user_message]\<close>.\<close>

definition initial_state :: "string \<Rightarrow> nat \<times> nat \<times> nat \<Rightarrow> state" where
  "initial_state query calls =
     (case calls of (l, t, g) \<Rightarrow>
        \<lparr>heap = [user_message query], messages = [0], n_llm = l, n_tool = t, n_log = g\<rparr>)"

definition process_query ::
  "env \<Rightarrow> tool list \<Rightarrow> string \<Rightarrow> nat \<times> nat \<times> nat \<Rightarrow> (message list \<times> state) option" where
  "process_query env tools query calls =
     (case conversation_loop env tools (initial_state query calls) of
        None \<Rightarrow> None
      | Some (None, st) \<Rightarrow> Some (conversation st, st)
      | Some (Some e, st) \<Rightarrow>
          (let st' = handle_error query e st in Some (conversation st', st')))"

section \<open>Concrete collaborators\<close>

text \<open>
  The stubs of the end-to-end fixture: a provider that asks for one search and then
  answers, a transport that knows the tool \<open>search\<close>, a log that can be written, and
  the decoder on the one argument text of the fixture.
\<close>

definition round1_text :: string where
  \<open>round1_text = ''Let me check. <function=search{"query":"x"}>''\<close>

definition round2_text :: string where
  "round2_text = ''Here is the answer.''"

definition search_args :: pyval where
  "search_args = PDict [(''query'', PStr ''x'')]"

definition search_payload :: pyval where
  "search_payload = PDict [(''text'', PStr ''42'')]"

definition stub_provider :: "nat \<Rightarrow> message list \<Rightarrow> exn + string option" where
  "stub_provider n sent = (if n = 0 then Inr (Some round1_text) else Inr (Some round2_text))"

definition stub_transport :: "nat \<Rightarrow> string \<Rightarrow> pyval \<Rightarrow> exn + pyval" where
  "stub_transport n name args =
     (if name = ''search'' \<and> args = search_args then Inr search_payload
      else Inl ''Unknown tool'')"

definition stub_loads :: "string \<Rightarrow> exn + pyval" where
  \<open>stub_loads s = (if s = ''{"query":"x"}'' then Inr search_args else Inl ''Expecting value'')\<close>

definition stub_env :: env where
  "stub_env =
     \<lparr>completions_create = stub_provider,
      call_tool = stub_transport,
      makedirs = (\<lambda>n. None),
      write_json = (\<lambda>n records. None),
      json_loads = stub_loads,
      json_dumps = (\<lambda>v. Inl ''not serializable''),
      py_str = (\<lambda>v. Inl ''unprintable'')\<rparr>"

text \<open>The same with a log that cannot be written, and with a transport that fails.\<close>

definition full_disk_env :: env where
  "full_disk_env = stub_env\<lparr>write_json := (\<lambda>n records. Some ''No space left on device'')\<rparr>"

definition failing_transport_env :: env where
  "failing_transport_env = stub_env\<lparr>call_tool := (\<lambda>n name args. Inl ''Connection closed'')\<rparr>"

definition unreachable_provider_env :: env where
  "unreachable_provider_env =
     stub_env\<lparr>completions_create := (\<lambda>n sent. Inl ''Connection error.'')\<rparr>"

definition plain_provider_env :: env where
  "plain_provider_env = stub_env\<lparr>completions_create := (\<lambda>n sent. Inr (Some ''Hello.''))\<rparr>"

section \<open>The result formatter: properties\<close>

lemma first_non_str_None:
  "(\<forall>v\<in>set vs. \<exists>p. v = PStr p) \<Longrightarrow> first_non_str i vs = None"
  by (induction vs arbitrary: i) auto

lemma join_newline_strs:
  assumes "\<forall>v\<in>set vs. \<exists>p. v = PStr p"
  shows "join_newline vs = Inr (join [CHR 0x0A] (map the_str vs))"
  using first_non_str_None [OF assms] by (simp add: join_newline_def)

lemma format_list_strs:
  assumes "\<forall>item\<in>set items. \<exists>p. format_item env item = PStr p"
  shows "format_tool_result env (PList items)
           = Inr (PStr (join [CHR 0x0A] (map (\<lambda>item. the_str (format_item env item)) items)))"
proof -
  have "\<forall>v\<in>set (map (format_item env) items). \<exists>p. v = PStr p"
    using assms by auto
  from join_newline_strs [OF this] show ?thesis
    by (simp add: format_tool_result_def comp_def)
qed

text \<open>
  The cases of the formatter, one by one. It answers the empty string for \<open>None\<close>
  and a string with itself, so formatting a formatted string changes nothing. For an
  item of a list it takes the \<open>text\<close> attribute, else the \<open>text\<close> entry, else the
  rendering by \<open>str\<close> or the placeholder; when every such piece is a string the list
  is answered with the pieces joined by line feeds. A dictionary with a \<open>text\<close> entry
  is answered with that entry, one without with its serialization when that succeeds;
  every other payload with its rendering by \<open>str\<close>, or the placeholder when that
  raises.
\<close>

theorem format_tool_result_contract:
  "format_tool_result env PNone = Inr (PStr [])
   \<and> format_tool_result env (PStr s) = Inr (PStr s)
   \<and> (\<forall>v. format_tool_result env (PStr s) = Inr v \<longrightarrow> format_tool_result env v = Inr v)
   \<and> (\<forall>item t. get_attr item ''text'' = Some t \<longrightarrow> format_item env item = t)
   \<and> (\<forall>item t. get_attr item ''text'' = None \<and> dict_item item ''text'' = Some t
        \<longrightarrow> format_item env item = t)
   \<and> (\<forall>item. get_attr item ''text'' = None \<and> dict_item item ''text'' = None
        \<longrightarrow> format_item env item
            = (case str_of env item of Inr r \<Rightarrow> PStr r | Inl e \<Rightarrow> PStr ''[Unprintable item]''))
   \<and> ((\<forall>item\<in>set items. \<exists>p. format_item env item = PStr p)
        \<longrightarrow> format_tool_result env (PList items)
            = Inr (PStr (join [CHR 0x0A] (map (\<lambda>item. the_str (format_item env item)) items))))
   \<and> (\<forall>t. map_of kvs ''text'' = Some t \<longrightarrow> format_tool_result env (PDict kvs) = Inr t)
   \<and> (\<forall>d. map_of kvs ''text'' = None \<and> json_dumps env (PDict kvs) = Inr d
        \<longrightarrow> format_tool_result env (PDict kvs) = Inr (PStr d))
   \<and> (\<forall>v. (v = PDict kvs \<and> map_of kvs ''text'' = None \<and> (\<exists>e. json_dumps env v = Inl e))
           \<or> (\<exists>b. v = PBool b) \<or> (\<exists>i. v = PInt i) \<or> (\<exists>c as. v = PObj c as)
        \<longrightarrow> format_tool_result env v
            = (case str_of env v of
                 Inr r \<Rightarrow> Inr (PStr r)
               | Inl e \<Rightarrow> Inr (PStr ''[Unprintable content]'')))"
proof (intro conjI allI impI)
  show "format_tool_result env PNone = Inr (PStr [])"
    by (simp add: format_tool_result_def)
  show "format_tool_result env (PStr s) = Inr (PStr s)"
    by (simp add: format_tool_result_def)
  show "format_tool_result env v = Inr v" if "format_tool_result env (PStr s) = Inr v" for v
    using that by (auto simp: format_tool_result_def)
  show "format_item env item = t" if "get_attr item ''text'' = Some t" for item t
    using that by (simp add: format_item_def)
  show "format_item env item = t"
    if "get_attr item ''text'' = None \<and> dict_item item ''text'' = Some t" for item t
    using that by (simp add: format_item_def)
  show "format_item env item
          = (case str_of env item of Inr r \<Rightarrow> PStr r | Inl e \<Rightarrow> PStr ''[Unprintable item]'')"
    if "get_attr item ''text'' = None \<and> dict_item item ''text'' = None" for item
    using that by (simp add: format_item_def)
  show "format_tool_result env (PList items)
          = Inr (PStr (join [CHR 0x0A] (map (\<lambda>item. the_str (format_item env item)) items)))"
    if "\<forall>item\<in>set items. \<exists>p. format_item env item = PStr p"
    using that by (rule format_list_strs)
  show "format_tool_result env (PDict kvs) = Inr t" if "map_of kvs ''text'' = Some t" for t
    using that by (simp add: format_tool_result_def)
  show "format_tool_result env (PDict kvs) = Inr (PStr d)"
    if "map_of kvs ''text'' = None \<and> json_dumps env (PDict kvs) = Inr d" for d
    using that by (simp add: format_tool_result_def)
  show "format_tool_result env v
          = (case str_of env v of
               Inr r \<Rightarrow> Inr (PStr r)
             | Inl e \<Rightarrow> Inr (PStr ''[Unprintable content]''))"
    if "(v = PDict kvs \<and> map_of kvs ''text'' = None \<and> (\<exists>e. json_dumps env v = Inl e))
           \<or> (\<exists>b. v = PBool b) \<or> (\<exists>i. v = PInt i) \<or> (\<exists>c as. v = PObj c as)" for v
    using that by (auto simp: format_tool_result_def str_fallback_def)
qed

definition mixed_items :: "pyval list" where
  "mixed_items =
     [PObj ''TextContent'' [(''text'', PStr ''a'')], PDict [(''text'', PStr ''b'')],
      PInt 7, PList []]"

text \<open>A serializer that succeeds on the empty dictionary.\<close>

definition dumps_env :: env where
  "dumps_env = stub_env\<lparr>json_dumps := (\<lambda>v. if v = PDict [] then Inr ''{}'' else Inl ''not serializable'')\<rparr>"

theorem format_tool_result_contract_witness:
  "format_tool_result stub_env (PStr ''42'') = Inr (PStr ''42'')
   \<and> format_tool_result stub_env (PList mixed_items)
       = Inr (PStr ''a\<newline>b\<newline>7\<newline>[Unprintable item]'')
   \<and> format_tool_result stub_env search_payload = Inr (PStr ''42'')
   \<and> format_tool_result stub_env (PInt 7) = Inr (PStr ''7'')
   \<and> format_tool_result stub_env (PObj ''ImageContent'' []) = Inr (PStr ''[Unprintable content]'')
   \<and> format_tool_result dumps_env (PDict []) = Inr (PStr ''{}'')
   \<and> format_tool_result stub_env (PDict []) = Inr (PStr ''[Unprintable content]'')"
proof -
  note e = format_tool_result_contract [of dumps_env "[]" "[]" "[]"]
  have "map_of [] ''text'' = None \<and> json_dumps dumps_env (PDict []) = Inr ''{}''"
    by (simp add: dumps_env_def)
  with e have j: "format_tool_result dumps_env (PDict []) = Inr (PStr ''{}'')"
    by blast
  note f = format_tool_result_contract [of stub_env "[]" "[]" "[]"]
  have "PDict [] = PDict [] \<and> map_of [] ''text'' = None
          \<and> (\<exists>e. json_dumps stub_env (PDict []) = Inl e)"
    by (simp add: stub_env_def)
  with f have "format_tool_result stub_env (PDict [])
          = (case str_of stub_env (PDict []) of
               Inr r \<Rightarrow> Inr (PStr r)
             | Inl e \<Rightarrow> Inr (PStr ''[Unprintable content]''))"
    by blast
  then have k: "format_tool_result stub_env (PDict []) = Inr (PStr ''[Unprintable content]'')"
    by (simp add: str_of_def stub_env_def)
  note c = format_tool_result_contract
             [of stub_env "''42''" mixed_items "[(''text'', PStr ''42'')]"]
  have pieces: "map (format_item stub_env) mixed_items
                  = [PStr ''a'', PStr ''b'', PStr ''7'', PStr ''[Unprintable item]'']"
    by (simp add: mixed_items_def format_item_def str_of_def stub_env_def show_int_def
          digit_char_def)
  have "\<forall>item\<in>set mixed_items. \<exists>p. format_item stub_env item = PStr p"
    by (simp add: mixed_items_def format_item_def str_of_def stub_env_def)
  with c have "format_tool_result stub_env (PList mixed_items)
                 = Inr (PStr (join [CHR 0x0A]
                     (map (\<lambda>item. the_str (format_item stub_env item)) mixed_items)))"
    by blast
  also have "map (\<lambda>item. the_str (format_item stub_env item)) mixed_items
               = map the_str (map (format_item stub_env) mixed_items)"
    by simp
  finally have l: "format_tool_result stub_env (PList mixed_items)
                     = Inr (PStr ''a\<newline>b\<newline>7\<newline>[Unprintable item]'')"
    by (simp add: pieces)
  have s: "format_tool_result stub_env (PStr ''42'') = Inr (PStr ''42'')"
    using c by blast
  have "map_of [(''text'', PStr ''42'')] ''text'' = Some (PStr ''42'')"
    by simp
  with c have d: "format_tool_result stub_env search_payload = Inr (PStr ''42'')"
    unfolding search_payload_def by blast
  have "format_tool_result stub_env (PInt 7)
          = (case str_of stub_env (PInt 7) of
               Inr r \<Rightarrow> Inr (PStr r)
             | Inl e \<Rightarrow> Inr (PStr ''[Unprintable content]''))"
    using c by blast
  then have i: "format_tool_result stub_env (PInt 7) = Inr (PStr ''7'')"
    by (simp add: str_of_def show_int_def digit_char_def)
  have "format_tool_result stub_env (PObj ''ImageContent'' [])
          = (case str_of stub_env (PObj ''ImageContent'' []) of
               Inr r \<Rightarrow> Inr (PStr r)
             | Inl e \<Rightarrow> Inr (PStr ''[Unprintable content]''))"
    using c by blast
  then have b: "format_tool_result stub_env (PObj ''ImageContent'' [])
                  = Inr (PStr ''[Unprintable content]'')"
    by (simp add: str_of_def stub_env_def)
  from s l d i b j k show ?thesis by blast
qed

text \<open>
  C7. The formatter is to turn every item of a list into text and join the pieces, and
  to answer a structured object that has a text field with that field; its docstring
  promises a string. The code misses this in two places. On the list \<open>[{"text": 5}]\<close>
  the entry is appended as it is, where the branch beside it converts with \<open>str\<close>,
  and the join raises a \<open>TypeError\<close>. And an object with a \<open>text\<close> attribute is
  answered with that attribute as an item of a list, but with its rendering by
  \<open>str\<close> (or the placeholder) as the payload itself.
\<close>

theorem format_tool_result_divergence:
  "format_tool_result env (PList [PDict [(''text'', PInt 5)]])
     = Inl ''sequence item 0: expected str instance, int found''
   \<and> format_item env (PObj cls [(''text'', PStr t)]) = PStr t
   \<and> format_tool_result env (PObj cls [(''text'', PStr t)])
       = (case py_str env (PObj cls [(''text'', PStr t)]) of
            Inr r \<Rightarrow> Inr (PStr r)
          | Inl e \<Rightarrow> Inr (PStr ''[Unprintable content]''))"
  by (simp add: format_tool_result_def format_item_def join_newline_def digit_char_def
        str_fallback_def str_of_def)

section \<open>The call-syntax parser: properties\<close>

text \<open>
  The call syntax of the specification: \<open><function=NAME{ARGS}>\<close>.
\<close>

definition call_fragment :: "string \<Rightarrow> string \<Rightarrow> string" where
  "call_fragment name args = ''<function='' @ name @ ''{'' @ args @ ''}>''"

lemma lit_append: "lit p k (p @ s) = k s"
  by (simp add: lit_def)

lemma star_greedy_run:
  assumes "\<forall>c\<in>set a. P c" and "s = [] \<or> \<not> P (hd s)" and "k (acc @ a) s = Some r"
  shows "star_greedy P k acc (a @ s) = Some r"
  using assms
proof (induction a arbitrary: acc)
  case Nil
  then show ?case by (cases s) auto
next
  case (Cons c a)
  from Cons.prems have "star_greedy P k (acc @ [c]) (a @ s) = Some r"
    by (intro Cons.IH) auto
  with Cons.prems show ?case by simp
qed

lemma plus_greedy_run:
  assumes "a \<noteq> []" and "\<forall>c\<in>set a. P c" and "s = [] \<or> \<not> P (hd s)" and "k a s = Some r"
  shows "plus_greedy P k (a @ s) = Some r"
proof -
  from assms(1) obtain c a' where a: "a = c # a'" by (cases a) auto
  with assms have "star_greedy P k [c] (a' @ s) = Some r"
    by (intro star_greedy_run) auto
  with a assms(2) show ?thesis by (simp add: plus_greedy_def)
qed

lemma star_lazy_run:
  assumes "\<forall>c\<in>set a. P c"
    and "\<forall>i<length a. k (acc @ take i a) (drop i a @ s) = None"
    and "k (acc @ a) s = Some r"
  shows "star_lazy P k acc (a @ s) = Some r"
  using assms
proof (induction a arbitrary: acc)
  case Nil
  then show ?case by (cases s) auto
next
  case (Cons c a)
  from Cons.prems(2) have first: "k acc (c # a @ s) = None"
    by (auto dest: spec [of _ 0])
  have "\<forall>i<length a. k ((acc @ [c]) @ take i a) (drop i a @ s) = None"
  proof (intro allI impI)
    fix i assume "i < length a"
    then have "Suc i < length (c # a)" by simp
    from Cons.prems(2) [rule_format, OF this] show "k ((acc @ [c]) @ take i a) (drop i a @ s) = None"
      by simp
  qed
  with Cons.prems have "star_lazy P k (acc @ [c]) (a @ s) = Some r"
    by (intro Cons.IH) auto
  with first Cons.prems(1) show ?case by simp
qed

lemma no_close_inside:
  assumes "\<not> sublist ''}>'' args" and "i < length args"
  shows "\<not> prefix ''}>'' (drop i args @ ''}>'' @ rest)"
proof
  assume p: "prefix ''}>'' (drop i args @ ''}>'' @ rest)"
  from assms(2) obtain x xs where d: "drop i args = x # xs"
    by (cases "drop i args") auto
  show False
  proof (cases xs)
    case Nil
    with p d show False by simp
  next
    case (Cons y ys)
    with p d have "prefix ''}>'' (drop i args)" by simp
    then have "sublist ''}>'' (drop i args)" by (rule prefix_imp_sublist)
    then have "sublist ''}>'' args"
      by (metis append_take_drop_id sublist_appendI sublist_order.order.trans suffix_def suffix_imp_sublist)
    with assms(1) show False by simp
  qed
qed

lemma match_here_fragment:
  assumes "name \<noteq> []" and "\<forall>c\<in>set name. is_word_char c"
    and "\<forall>c\<in>set args. is_dot_char c" and "\<not> sublist ''}>'' args"
  shows "match_here (call_fragment name args @ rest) = Some ((name, args), rest)"
proof -
  let ?k2 = "\<lambda>n a. lit ''}>'' (\<lambda>rest. Some ((n, a), rest))"
  let ?k1 = "\<lambda>n. lit ''{'' (star_lazy is_dot_char (?k2 n) [])"
  have close: "?k2 name ([] @ args) (''}>'' @ rest) = Some ((name, args), rest)"
    by (simp add: lit_def)
  have "\<forall>i<length args. ?k2 name ([] @ take i args) (drop i args @ ''}>'' @ rest) = None"
    using no_close_inside [OF assms(4)] by (simp add: lit_def)
  from star_lazy_run [OF assms(3) this close]
  have "star_lazy is_dot_char (?k2 name) [] (args @ ''}>'' @ rest) = Some ((name, args), rest)" .
  then have "?k1 name (''{'' @ args @ ''}>'' @ rest) = Some ((name, args), rest)"
    by (simp add: lit_def)
  moreover have "\<not> is_word_char (hd (''{'' @ args @ ''}>'' @ rest))"
    by (simp add: is_word_char_def code_point_def)
  ultimately have "plus_greedy is_word_char ?k1 (name @ ''{'' @ args @ ''}>'' @ rest)
                     = Some ((name, args), rest)"
    using assms(1,2) by (intro plus_greedy_run) auto
  then show ?thesis
    by (simp add: match_here_def call_fragment_def lit_def)
qed


lemma findall_match:
  "match_here s = Some (m, rest) \<Longrightarrow> findall s = m # findall rest"
  by simp

lemma findall_skip:
  "match_here (c # cs) = None \<Longrightarrow> findall (c # cs) = findall cs"
  by simp

lemma match_here_marker:
  "match_here s \<noteq> None \<Longrightarrow> prefix ''<function='' s"
  by (auto simp: match_here_def lit_def split: if_splits)

lemma prefix_before_angle:
  assumes "CHR ''<'' \<notin> set m" and "prefix m (u @ CHR ''<'' # s)"
  shows "prefix m u"
  using assms
proof (induction m arbitrary: u)
  case Nil
  then show ?case by simp
next
  case (Cons x m)
  show ?case
  proof (cases u)
    case Nil
    with Cons.prems show ?thesis by simp
  next
    case (Cons c u')
    with Cons.prems Cons.IH [of u'] show ?thesis by simp
  qed
qed

lemma marker_straddle:
  assumes "prefix ''<function='' (u @ CHR ''<'' # s)" and "u \<noteq> []"
  shows "prefix ''<function='' u"
proof -
  from assms(2) obtain c u' where u: "u = c # u'" by (cases u) auto
  with assms(1) have c: "c = CHR ''<''" and "prefix ''function='' (u' @ CHR ''<'' # s)"
    by auto
  from prefix_before_angle [OF _ this(2)] have "prefix ''function='' u'" by simp
  with u c show ?thesis by simp
qed

lemma sublist_Cons_tail: "\<not> sublist m (c # p) \<Longrightarrow> \<not> sublist m p"
  by (meson sublist_Cons_right)

text \<open>Prose without the marker, in front of a fragment or at the end, yields nothing.\<close>

lemma findall_prose:
  assumes "\<not> sublist ''<function='' prose"
  shows "findall (prose @ CHR ''<'' # s) = findall (CHR ''<'' # s)"
  using assms
proof (induction prose)
  case Nil
  then show ?case by simp
next
  case (Cons c prose)
  have "match_here ((c # prose) @ CHR ''<'' # s) = None"
  proof (rule ccontr)
    assume "match_here ((c # prose) @ CHR ''<'' # s) \<noteq> None"
    then have "prefix ''<function='' ((c # prose) @ CHR ''<'' # s)"
      by (rule match_here_marker)
    then have "prefix ''<function='' (c # prose)"
      by (rule marker_straddle) simp
    then have "sublist ''<function='' (c # prose)"
      by (rule prefix_imp_sublist)
    with Cons.prems show False by simp
  qed
  then have "findall ((c # prose) @ CHR ''<'' # s) = findall (prose @ CHR ''<'' # s)"
    using findall_skip [of c "prose @ CHR ''<'' # s"] by simp
  with Cons.IH [OF sublist_Cons_tail [OF Cons.prems]] show ?case by simp
qed

lemma findall_no_marker:
  assumes "\<not> sublist ''<function='' s"
  shows "findall s = []"
  using assms
proof (induction s)
  case Nil
  then show ?case by (simp add: match_here_def lit_def)
next
  case (Cons c s)
  have "match_here (c # s) = None"
  proof (rule ccontr)
    assume "match_here (c # s) \<noteq> None"
    then have "sublist ''<function='' (c # s)"
      by (intro prefix_imp_sublist match_here_marker)
    with Cons.prems show False by simp
  qed
  then have "findall (c # s) = findall s"
    by (rule findall_skip)
  with Cons.IH [OF sublist_Cons_tail [OF Cons.prems]] show ?case by simp
qed

lemma ident_is_word: "is_ident_char c \<Longrightarrow> is_word_char c"
  by (auto simp: is_ident_char_def is_word_char_def Let_def)

definition well_formed_call :: "string \<times> string \<times> string \<Rightarrow> bool" where
  "well_formed_call call =
     (case call of (prose, name, args) \<Rightarrow>
        \<not> sublist ''<function='' prose \<and> name \<noteq> [] \<and> list_all is_ident_char name
        \<and> list_all is_dot_char args \<and> \<not> sublist ''}>'' args)"

definition call_text :: "string \<times> string \<times> string \<Rightarrow> string" where
  "call_text call = (case call of (prose, name, args) \<Rightarrow> prose @ call_fragment name args)"

definition call_pair :: "string \<times> string \<times> string \<Rightarrow> string \<times> string" where
  "call_pair call = (case call of (prose, name, args) \<Rightarrow> (name, args))"

lemma findall_call:
  assumes "well_formed_call call"
  shows "findall (call_text call @ rest) = call_pair call # findall rest"
proof -
  obtain prose name args where call: "call = (prose, name, args)" by (cases call)
  from assms call have wf: "\<not> sublist ''<function='' prose" "name \<noteq> []"
    "\<forall>c\<in>set name. is_word_char c" "\<forall>c\<in>set args. is_dot_char c" "\<not> sublist ''}>'' args"
    by (auto simp: well_formed_call_def list_all_iff ident_is_word)
  have "call_fragment name args @ rest = CHR ''<'' # ''function='' @ name @ ''{'' @ args @ ''}>'' @ rest"
    by (simp add: call_fragment_def)
  with findall_prose [OF wf(1), of "''function='' @ name @ ''{'' @ args @ ''}>'' @ rest"]
  have "findall (prose @ call_fragment name args @ rest) = findall (call_fragment name args @ rest)"
    by simp
  also have "\<dots> = (name, args) # findall rest"
    using match_here_fragment [OF wf(2-5), of rest] by simp
  finally show ?thesis by (simp add: call call_text_def call_pair_def)
qed

lemma findall_calls:
  assumes "list_all well_formed_call calls" and "\<not> sublist ''<function='' tail"
  shows "findall (concat (map call_text calls) @ tail) = map call_pair calls"
  using assms(1)
proof (induction calls)
  case Nil
  then show ?case using findall_no_marker [OF assms(2)] by simp
next
  case (Cons call calls)
  then have "findall (call_text call @ (concat (map call_text calls) @ tail))
               = call_pair call # findall (concat (map call_text calls) @ tail)"
    by (intro findall_call) simp
  with Cons show ?case by simp
qed


lemma findall_nonempty_fragment:
  "findall s \<noteq> [] \<Longrightarrow>
     \<exists>pre name args post. s = pre @ call_fragment name args @ post
        \<and> name \<noteq> [] \<and> (\<forall>c\<in>set name. is_word_char c)"
proof (induction s)
  case Nil
  then show ?case by (simp add: match_here_def lit_def)
next
  case (Cons c s)
  show ?case
  proof (cases "match_here (c # s)")
    case None
    with Cons.prems have "findall s \<noteq> []" by simp
    from Cons.IH [OF this] obtain pre name args post
      where "s = pre @ call_fragment name args @ post" "name \<noteq> []" "\<forall>c\<in>set name. is_word_char c"
      by blast
    then have "c # s = (c # pre) @ call_fragment name args @ post \<and> name \<noteq> []
                 \<and> (\<forall>c\<in>set name. is_word_char c)"
      by simp
    then show ?thesis by blast
  next
    case (Some r)
    obtain name args rest where r: "r = ((name, args), rest)" by (cases r) auto
    from match_here_Some [OF Some [unfolded r]]
    have "c # s = [] @ call_fragment name args @ rest \<and> name \<noteq> []
            \<and> (\<forall>c\<in>set name. is_word_char c)"
      by (simp add: call_fragment_def)
    then show ?thesis by blast
  qed
qed

lemma fragment_has_brace:
  "s = pre @ call_fragment name args @ post \<Longrightarrow> CHR ''{'' \<in> set s"
  by (simp add: call_fragment_def)

lemma fragment_has_marker:
  "s = pre @ call_fragment name args @ post \<Longrightarrow> sublist ''<function='' s"
  unfolding call_fragment_def sublist_def by (metis append.assoc)

text \<open>
  C6, as the code has it. A text with no occurrence of \<open><function=NAME{...}>\<close>,
  \<open>NAME\<close> a non-empty run of the word characters of \<open>\w\<close>, has no match: the
  parser answers the empty list. \<open>findall\<close> is a total function, so it answers on
  every text.
\<close>

theorem findall_no_false_positive:
  assumes "\<not> (\<exists>pre name args post. s = pre @ call_fragment name args @ post
                 \<and> name \<noteq> [] \<and> (\<forall>c\<in>set name. is_word_char c))"
  shows "findall s = []"
  using assms findall_nonempty_fragment [of s] by blast

theorem findall_no_false_positive_witness:
  \<open>findall ''<function=NAME"a":"b">'' = []
   \<and> findall ''if a < b then {"x": 1} else <func>'' = []\<close>
proof -
  have \<open>CHR ''{'' \<notin> set ''<function=NAME"a":"b">''\<close>
    by simp
  then have \<open>\<not> (\<exists>pre name args post.
               ''<function=NAME"a":"b">'' = pre @ call_fragment name args @ post
               \<and> name \<noteq> [] \<and> (\<forall>c\<in>set name. is_word_char c))\<close>
    using fragment_has_brace by blast
  then have 1: \<open>findall ''<function=NAME"a":"b">'' = []\<close>
    by (rule findall_no_false_positive)
  have \<open>\<not> sublist ''<function='' ''if a < b then {"x": 1} else <func>''\<close>
    by (simp add: sublist_code)
  then have \<open>\<not> (\<exists>pre name args post.
               ''if a < b then {"x": 1} else <func>'' = pre @ call_fragment name args @ post
               \<and> name \<noteq> [] \<and> (\<forall>c\<in>set name. is_word_char c))\<close>
    using fragment_has_marker by blast
  then have 2: \<open>findall ''if a < b then {"x": 1} else <func>'' = []\<close>
    by (rule findall_no_false_positive)
  from 1 2 show ?thesis by blast
qed

lemma name_stops_at_brace:
  assumes "name @ CHR ''{'' # r = u @ x # v" and "\<forall>c\<in>set name. P c" and "\<not> P x"
    and "x \<noteq> CHR ''{''" and "CHR ''{'' \<notin> set u"
  shows False
proof -
  from assms(1) obtain w where
    "(name = u @ w \<and> w @ CHR ''{'' # r = x # v) \<or> (name @ w = u \<and> CHR ''{'' # r = w @ x # v)"
    by (auto simp: append_eq_append_conv2)
  then show False
  proof
    assume a: "name = u @ w \<and> w @ CHR ''{'' # r = x # v"
    show False
    proof (cases w)
      case Nil
      with a assms(4) show False by simp
    next
      case (Cons y w')
      with a have "x \<in> set name" by simp
      with assms(2,3) show False by blast
    qed
  next
    assume a: "name @ w = u \<and> CHR ''{'' # r = w @ x # v"
    show False
    proof (cases w)
      case Nil
      with a assms(4) show False by simp
    next
      case (Cons y w')
      with a have "CHR ''{'' \<in> set u" by auto
      with assms(5) show False by simp
    qed
  qed
qed

lemma cafe_no_ident_fragment:
  \<open>\<not> (\<exists>pre name args post.
        ''<function=caf'' @ [CHR 0xE9] @ ''{"a":"b"}>'' = pre @ call_fragment name args @ post
        \<and> name \<noteq> [] \<and> list_all is_ident_char name)\<close>
proof
  assume \<open>\<exists>pre name args post.
        ''<function=caf'' @ [CHR 0xE9] @ ''{"a":"b"}>'' = pre @ call_fragment name args @ post
        \<and> name \<noteq> [] \<and> list_all is_ident_char name\<close>
  then obtain pre name args post where
    eq: \<open>''<function=caf'' @ [CHR 0xE9] @ ''{"a":"b"}>'' = pre @ call_fragment name args @ post\<close>
    and name: "list_all is_ident_char name"
    by blast
  have pre: "pre = []"
  proof (cases pre)
    case Nil
    then show ?thesis .
  next
    case (Cons c pre')
    with eq have \<open>''function=caf'' @ [CHR 0xE9] @ ''{"a":"b"}>''
                   = pre' @ call_fragment name args @ post\<close>
      by simp
    then have \<open>CHR ''<'' \<in> set (''function=caf'' @ [CHR 0xE9] @ ''{"a":"b"}>'')\<close>
      by (simp add: call_fragment_def)
    then show ?thesis by simp
  qed
  with eq have \<open>name @ CHR ''{'' # (args @ ''}>'' @ post) = ''caf'' @ CHR 0xE9 # ''{"a":"b"}>''\<close>
    by (simp add: call_fragment_def)
  from name_stops_at_brace [OF this, of is_ident_char] name show False
    by (simp add: list_all_iff is_ident_char_def code_point_def)
qed

text \<open>
  C6 as stated, with the identifier of the call syntax \<open>[A-Za-z0-9_]+\<close>, fails on a
  name with a letter outside ASCII: the text has no fragment with such an identifier,
  and the parser answers a match, since \<open>\w\<close> takes the letter.
\<close>

theorem findall_non_ascii_name:
  \<open>findall (''<function=caf'' @ [CHR 0xE9] @ ''{"a":"b"}>'')
     = [(''caf'' @ [CHR 0xE9], ''"a":"b"'')]
   \<and> \<not> list_all is_ident_char (''caf'' @ [CHR 0xE9])
   \<and> \<not> (\<exists>pre name args post.
        ''<function=caf'' @ [CHR 0xE9] @ ''{"a":"b"}>'' = pre @ call_fragment name args @ post
        \<and> name \<noteq> [] \<and> list_all is_ident_char name)\<close>
proof (intro conjI)
  show \<open>findall (''<function=caf'' @ [CHR 0xE9] @ ''{"a":"b"}>'')
     = [(''caf'' @ [CHR 0xE9], ''"a":"b"'')]\<close>
    by (simp add: findall.simps match_here_def lit_def plus_greedy_def is_word_char_def
          is_dot_char_def code_point_def)
  show "\<not> list_all is_ident_char (''caf'' @ [CHR 0xE9])"
    by (simp add: is_ident_char_def code_point_def)
  show \<open>\<not> (\<exists>pre name args post.
        ''<function=caf'' @ [CHR 0xE9] @ ''{"a":"b"}>'' = pre @ call_fragment name args @ post
        \<and> name \<noteq> [] \<and> list_all is_ident_char name)\<close>
    by (rule cafe_no_ident_fragment)
qed

text \<open>
  C5, as the code has it. For a text made of calls, each a piece of prose without
  \<open><function=\<close> followed by a fragment \<open><function=NAME{ARGS}>\<close> whose name is a
  non-empty run of \<open>[A-Za-z0-9_]\<close> and whose arguments have no line feed and no
  \<open>}>\<close> inside, and of such prose at the end, the parser answers the pairs of name
  and raw arguments in the order of the text. In particular the fragment with the
  arguments \<open>"a":"b"\<close>, with or without braces of their own, yields the pair whose
  arguments reach the decoder as the text \<open>{"a":"b"}\<close>.
\<close>

theorem findall_well_formed_calls:
  \<open>(list_all well_formed_call calls \<and> \<not> sublist ''<function='' tail
      \<longrightarrow> findall (concat (map call_text calls) @ tail) = map call_pair calls)
   \<and> (name \<noteq> [] \<and> list_all is_ident_char name
      \<longrightarrow> findall (call_fragment name ''"a":"b"'') = [(name, ''"a":"b"'')]
          \<and> wrap_args ''"a":"b"'' = ''{"a":"b"}''
          \<and> findall (call_fragment name ''{"a":"b"}'') = [(name, ''{"a":"b"}'')]
          \<and> wrap_args ''{"a":"b"}'' = ''{"a":"b"}'')\<close>
proof (intro conjI impI)
  assume "list_all well_formed_call calls \<and> \<not> sublist ''<function='' tail"
  then show "findall (concat (map call_text calls) @ tail) = map call_pair calls"
    using findall_calls by blast
next
  assume name: "name \<noteq> [] \<and> list_all is_ident_char name"
  have \<open>well_formed_call ([], name, ''"a":"b"'')\<close>
    using name by (simp add: well_formed_call_def is_dot_char_def sublist_code)
  from findall_call [OF this, of "[]"]
  show \<open>findall (call_fragment name ''"a":"b"'') = [(name, ''"a":"b"'')]\<close>
    by (simp add: call_text_def call_pair_def match_here_def lit_def)
  have \<open>well_formed_call ([], name, ''{"a":"b"}'')\<close>
    using name by (simp add: well_formed_call_def is_dot_char_def sublist_code)
  from findall_call [OF this, of "[]"]
  show \<open>findall (call_fragment name ''{"a":"b"}'') = [(name, ''{"a":"b"}'')]\<close>
    by (simp add: call_text_def call_pair_def match_here_def lit_def)
  show \<open>wrap_args ''"a":"b"'' = ''{"a":"b"}''\<close>
    by (simp add: wrap_args_def strip_def startswith_def is_space_def code_point_def)
  show \<open>wrap_args ''{"a":"b"}'' = ''{"a":"b"}''\<close>
    by (simp add: wrap_args_def strip_def startswith_def is_space_def code_point_def)
qed

definition two_calls :: "(string \<times> string \<times> string) list" where
  \<open>two_calls =
     [(''Let me check. '', ''search'', ''"query":"x"''),
      ('' Then, as 1 < 2: '', ''get_price'', ''{"id": 7}'')]\<close>

theorem findall_well_formed_calls_witness:
  \<open>findall ''Let me check. <function=search{"query":"x"}> Then, as 1 < 2: <function=get_price{{"id": 7}}> Done.''
     = [(''search'', ''"query":"x"''), (''get_price'', ''{"id": 7}'')]
   \<and> findall ''<function=NAME{"a":"b"}>'' = [(''NAME'', ''"a":"b"'')]
   \<and> wrap_args ''"a":"b"'' = ''{"a":"b"}''\<close>
proof -
  note c = findall_well_formed_calls [of two_calls "'' Done.''" "''NAME''"]
  have "list_all well_formed_call two_calls \<and> \<not> sublist ''<function='' '' Done.''"
    by (simp add: two_calls_def well_formed_call_def is_ident_char_def is_dot_char_def
          code_point_def sublist_code)
  with c have "findall (concat (map call_text two_calls) @ '' Done.'') = map call_pair two_calls"
    by blast
  then have 1: \<open>findall ''Let me check. <function=search{"query":"x"}> Then, as 1 < 2: <function=get_price{{"id": 7}}> Done.''
     = [(''search'', ''"query":"x"''), (''get_price'', ''{"id": 7}'')]\<close>
    by (simp add: two_calls_def call_text_def call_pair_def call_fragment_def)
  have "''NAME'' \<noteq> [] \<and> list_all is_ident_char ''NAME''"
    by (simp add: is_ident_char_def code_point_def)
  with c have \<open>findall (call_fragment ''NAME'' ''"a":"b"'') = [(''NAME'', ''"a":"b"'')]
                \<and> wrap_args ''"a":"b"'' = ''{"a":"b"}''\<close>
    by blast
  then have 2: \<open>findall ''<function=NAME{"a":"b"}>'' = [(''NAME'', ''"a":"b"'')]
                \<and> wrap_args ''"a":"b"'' = ''{"a":"b"}''\<close>
    by (simp add: call_fragment_def)
  from 1 2 show ?thesis by blast
qed

text \<open>
  C5 as stated fails on a fragment whose arguments run over two lines: the dot of the
  pattern does not match the line feed, and the call is not found.
\<close>

theorem findall_two_line_arguments:
  \<open>findall ''<function=search{"query":\<newline>"x"}>'' = []\<close>
  by (simp add: match_here_def lit_def plus_greedy_def is_word_char_def is_dot_char_def
        code_point_def)

section \<open>The loop: invariants\<close>

text \<open>
  The messages the loop builds: the role is \<open>user\<close> or \<open>assistant\<close>, and there
  is no \<open>tool_call_id\<close> entry.
\<close>

definition plain_message :: "message \<Rightarrow> bool" where
  "plain_message m =
     ((has_role ''user'' m \<or> has_role ''assistant'' m) \<and> map_of m ''tool_call_id'' = None)"

text \<open>
  The invariant of the loop: every entry of \<open>self.messages\<close> refers to an object of
  the heap, and that object is such a message.
\<close>

definition conversation_ok :: "state \<Rightarrow> bool" where
  "conversation_ok st =
     list_all (\<lambda>a. a < length (heap st) \<and> plain_message (heap st ! a)) (messages st)"

text \<open>What the n-th call of \<open>log_conversation\<close> does on a conversation.\<close>

definition log_outcome :: "env \<Rightarrow> nat \<Rightarrow> message list \<Rightarrow> exn option" where
  "log_outcome env n conv =
     (case makedirs env n of
        Some e \<Rightarrow> Some e
      | None \<Rightarrow>
          (case serializable_conversation conv of
             Inl e \<Rightarrow> Some e
           | Inr records \<Rightarrow> write_json env n records))"

text \<open>
  The system message a completion request carries in front of the conversation: the
  fresh one, with the reminder when tools are to be encouraged.
\<close>

definition system_message_sent :: "tool list \<Rightarrow> message list \<Rightarrow> message" where
  "system_message_sent tools conv =
     (let system_message = create_system_message (map tool_name tools) in
      if should_encourage_tools tools (system_message # conv)
      then dict_set ''content''
             (the (map_of system_message ''content'') @ encouragement) system_message
      else system_message)"

lemma plain_not_system: "plain_message m \<Longrightarrow> \<not> has_role ''system'' m"
  by (auto simp: plain_message_def has_role_def)

lemma deref_append_heap:
  "\<forall>a\<in>set as. a < length h \<Longrightarrow> deref (h @ h') as = deref h as"
  by (simp add: deref_def nth_append)

lemma conversation_okD:
  "conversation_ok st \<Longrightarrow> a \<in> set (messages st) \<Longrightarrow> a < length (heap st) \<and> plain_message (heap st ! a)"
  by (simp add: conversation_ok_def list_all_iff)

lemma conversation_append:
  assumes "conversation_ok st"
  shows "conversation (append_message m st) = conversation st @ [m]"
  using assms
  by (auto simp: conversation_def append_message_def deref_def nth_append conversation_ok_def
        list_all_iff)

lemma conversation_ok_append:
  assumes "conversation_ok st" and "plain_message m"
  shows "conversation_ok (append_message m st)"
  using assms
  by (auto simp: append_message_def nth_append conversation_ok_def list_all_iff)

lemma create_system_message_role: "has_role ''system'' (create_system_message names)"
  by (simp add: create_system_message_def has_role_def Let_def)

lemma create_system_message_content: "map_of (create_system_message names) ''content'' \<noteq> None"
  by (simp add: create_system_message_def Let_def)

lemma no_system_in_copy:
  assumes "conversation_ok st"
  shows "\<not> list_ex (\<lambda>a. has_role ''system'' (heap st ! a)) (messages st)"
  using assms by (auto simp: list_ex_iff dest: conversation_okD plain_not_system)

lemma generate_completion_eq:
  assumes "conversation_ok st"
  shows "generate_completion env tools st =
           (completions_create env (n_llm st)
              (system_message_sent tools (conversation st) # conversation st),
            st\<lparr>heap := heap st @ [system_message_sent tools (conversation st)],
               n_llm := Suc (n_llm st)\<rparr>)"
proof -
  let ?h = "heap st"
  let ?sys = "create_system_message (map tool_name tools)"
  have valid: "\<forall>a\<in>set (messages st). a < length ?h"
    using assms by (auto dest: conversation_okD)
  have d1: "deref (?h @ [?sys]) (length ?h # messages st) = ?sys # conversation st"
    using valid by (simp add: deref_def conversation_def nth_append)
  obtain c where c: "map_of ?sys ''content'' = Some c"
    using create_system_message_content [of "map tool_name tools"] by auto
  have fs: "first_system (?h @ [?sys]) (length ?h # messages st) = Some (length ?h)"
    by (simp add: create_system_message_role)
  have enc: "encourage (?h @ [?sys]) (length ?h # messages st)
               = Inr (?h @ [dict_set ''content'' (c @ encouragement) ?sys])"
    by (simp only: encourage_def fs) (simp add: c)
  have d2: "deref (?h @ [m]) (length ?h # messages st) = m # conversation st" for m
    using valid by (simp add: deref_def conversation_def nth_append)
  show ?thesis
    using no_system_in_copy [OF assms]
    by (simp add: generate_completion_def Let_def d1 d2 enc system_message_sent_def c)
qed


lemma conversation_counters [simp]:
  "conversation (st\<lparr>n_log := g\<rparr>) = conversation st"
  "conversation (st\<lparr>n_tool := t\<rparr>) = conversation st"
  "conversation (st\<lparr>n_llm := l\<rparr>) = conversation st"
  by (simp_all add: conversation_def)

lemma conversation_ok_counters [simp]:
  "conversation_ok (st\<lparr>n_log := g\<rparr>) = conversation_ok st"
  "conversation_ok (st\<lparr>n_tool := t\<rparr>) = conversation_ok st"
  "conversation_ok (st\<lparr>n_llm := l\<rparr>) = conversation_ok st"
  by (simp_all add: conversation_ok_def)

lemma append_message_counters [simp]:
  "n_llm (append_message m st) = n_llm st"
  "n_tool (append_message m st) = n_tool st"
  "n_log (append_message m st) = n_log st"
  by (simp_all add: append_message_def)

lemma log_conversation_eq:
  "log_conversation env st
     = (log_outcome env (n_log st) (conversation st), st\<lparr>n_log := Suc (n_log st)\<rparr>)"
  by (simp add: log_conversation_def log_outcome_def Let_def split: option.splits sum.splits)

lemma serializable_conversation_roles:
  "\<forall>m\<in>set ms. map_of m ''role'' \<noteq> None \<Longrightarrow> \<exists>records. serializable_conversation ms = Inr records"
proof (induction ms)
  case Nil
  then show ?case by simp
next
  case (Cons m ms)
  then obtain records where "serializable_conversation ms = Inr records" by auto
  moreover from Cons.prems obtain r where "map_of m ''role'' = Some r" by auto
  ultimately show ?case by (simp add: serializable_message_def)
qed

lemma conversation_ok_roles:
  assumes "conversation_ok st"
  shows "\<forall>m\<in>set (conversation st). plain_message m"
  using assms by (auto simp: conversation_def deref_def dest: conversation_okD)

text \<open>A log that can always be written.\<close>

definition logs_ok :: "env \<Rightarrow> bool" where
  "logs_ok env = ((\<forall>n. makedirs env n = None) \<and> (\<forall>n records. write_json env n records = None))"

lemma log_outcome_ok:
  assumes "logs_ok env" and "\<forall>m\<in>set conv. plain_message m"
  shows "log_outcome env n conv = None"
proof -
  have "\<forall>m\<in>set conv. map_of m ''role'' \<noteq> None"
    using assms(2) by (auto simp: plain_message_def has_role_def)
  from serializable_conversation_roles [OF this] obtain records
    where "serializable_conversation conv = Inr records" by blast
  with assms(1) show ?thesis by (simp add: log_outcome_def logs_ok_def)
qed

lemma log_conversation_ok:
  assumes "logs_ok env" and "conversation_ok st"
  shows "log_conversation env st = (None, st\<lparr>n_log := Suc (n_log st)\<rparr>)"
  using log_outcome_ok [OF assms(1) conversation_ok_roles [OF assms(2)]]
  by (simp add: log_conversation_eq)

lemma plain_messages [simp]:
  "plain_message (user_message q)" "plain_message (assistant_message c)"
  "plain_message (tool_result_message name c)" "plain_message (tool_error_message name e)"
  "plain_message (error_message e)"
  by (simp_all add: plain_message_def has_role_def user_message_def assistant_message_def
        tool_result_message_def tool_error_message_def error_message_def)

lemma prefix_append_one: "prefix xs (xs @ [m])"
  by simp

text \<open>What one turn of the \<open>for\<close> loop does to the conversation, whatever the log does.\<close>

lemma try_call_inv:
  assumes "conversation_ok st" and "try_call env call st = (r, st')"
  shows "conversation_ok st' \<and> prefix (conversation st) (conversation st')
         \<and> n_llm st' = n_llm st"
proof -
  obtain name args where call: "call = (name, args)" by (cases call)
  show ?thesis
    using assms
    by (auto simp: call try_call_def Let_def log_conversation_eq conversation_append
          conversation_ok_append
        split: sum.splits)
qed

lemma call_one_inv:
  assumes "conversation_ok st" and "call_one env call st = (r, st')"
  shows "conversation_ok st' \<and> prefix (conversation st) (conversation st')
         \<and> n_llm st' = n_llm st"
proof (cases "try_call env call st")
  case (Pair r1 st1)
  from try_call_inv [OF assms(1) Pair]
  have 1: "conversation_ok st1" "prefix (conversation st) (conversation st1)" "n_llm st1 = n_llm st"
    by simp_all
  show ?thesis
  proof (cases r1)
    case None
    with Pair assms(2) 1 show ?thesis by (simp add: call_one_def)
  next
    case (Some e)
    with Pair assms(2)
    have st': "st' = (append_message (tool_error_message (fst call) e) st1)
                       \<lparr>n_log := Suc (n_log (append_message (tool_error_message (fst call) e) st1))\<rparr>"
      by (simp add: call_one_def log_conversation_eq)
    have "prefix (conversation st1) (conversation st')"
      using 1(1) by (simp add: st' conversation_append)
    with 1 show ?thesis
      by (auto simp: st' conversation_ok_append)
  qed
qed

lemma process_calls_inv:
  "conversation_ok st \<Longrightarrow> process_calls env calls st = (r, st') \<Longrightarrow>
     conversation_ok st' \<and> prefix (conversation st) (conversation st') \<and> n_llm st' = n_llm st"
proof (induction calls arbitrary: st)
  case Nil
  then show ?case by simp
next
  case (Cons call calls)
  obtain r1 st1 where c: "call_one env call st = (r1, st1)" by (cases "call_one env call st")
  from call_one_inv [OF Cons.prems(1) c]
  have 1: "conversation_ok st1" "prefix (conversation st) (conversation st1)" "n_llm st1 = n_llm st"
    by simp_all
  show ?case
  proof (cases r1)
    case None
    with c Cons.prems(2) have "process_calls env calls st1 = (r, st')" by simp
    from Cons.IH [OF 1(1) this] 1 show ?thesis by auto
  next
    case (Some e)
    with c Cons.prems(2) 1 show ?thesis by auto
  qed
qed

fun outcome_state :: "outcome \<Rightarrow> state" where
  "outcome_state (Break st) = st"
| "outcome_state (Raise e st) = st"
| "outcome_state (Continue st) = st"

lemma heap_grow:
  assumes "conversation_ok st"
  shows "conversation_ok (st\<lparr>heap := heap st @ h'\<rparr>)"
    and "conversation (st\<lparr>heap := heap st @ h'\<rparr>) = conversation st"
  using assms
  by (auto simp: conversation_ok_def conversation_def deref_def list_all_iff nth_append)

definition after_request :: "tool list \<Rightarrow> state \<Rightarrow> state" where
  "after_request tools st =
     st\<lparr>heap := heap st @ [system_message_sent tools (conversation st)],
        n_llm := Suc (n_llm st)\<rparr>"

lemma after_request_ok:
  assumes "conversation_ok st"
  shows "conversation_ok (after_request tools st)"
    and "conversation (after_request tools st) = conversation st"
  using heap_grow [OF assms, of "[system_message_sent tools (conversation st)]"]
  by (simp_all add: after_request_def conversation_ok_def conversation_def)

lemma after_request_counters [simp]:
  "n_llm (after_request tools st) = Suc (n_llm st)"
  "n_tool (after_request tools st) = n_tool st"
  "n_log (after_request tools st) = n_log st"
  by (simp_all add: after_request_def)

lemma generate_completion_request:
  assumes "conversation_ok st"
  shows "generate_completion env tools st =
           (completions_create env (n_llm st)
              (system_message_sent tools (conversation st) # conversation st),
            after_request tools st)"
  using generate_completion_eq [OF assms] by (simp add: after_request_def)

text \<open>One turn of the \<open>while\<close> loop, case by case.\<close>

lemma round_eq:
  assumes "conversation_ok st"
  shows "round env tools st =
     (case completions_create env (n_llm st)
             (system_message_sent tools (conversation st) # conversation st) of
        Inl e \<Rightarrow> Raise e (after_request tools st)
      | Inr content \<Rightarrow>
          (let st2 = (append_message (assistant_message (content_text content))
                        (after_request tools st))\<lparr>n_log := Suc (n_log st)\<rparr>
           in case log_outcome env (n_log st)
                     (conversation st @ [assistant_message (content_text content)]) of
                Some e \<Rightarrow> Raise e st2
              | None \<Rightarrow>
                  if findall (content_text content) = [] then Break st2
                  else (case process_calls env (findall (content_text content)) st2 of
                          (Some e, st3) \<Rightarrow> Raise e st3
                        | (None, st3) \<Rightarrow> Continue st3)))"
  using after_request_ok [OF assms, of tools]
  by (simp add: round_def generate_completion_request [OF assms] log_conversation_eq Let_def
        conversation_append
      split: sum.splits option.splits)

lemma round_inv:
  assumes "conversation_ok st"
  shows "conversation_ok (outcome_state (round env tools st))
         \<and> prefix (conversation st) (conversation (outcome_state (round env tools st)))"
proof -
  note ar = after_request_ok [OF assms, of tools]
  show ?thesis
  proof (cases "completions_create env (n_llm st)
             (system_message_sent tools (conversation st) # conversation st)")
    case (Inl e)
    then show ?thesis using ar by (simp add: round_eq [OF assms])
  next
    case (Inr content)
    define st2 where "st2 = (append_message (assistant_message (content_text content))
                        (after_request tools st))\<lparr>n_log := Suc (n_log st)\<rparr>"
    have ok2: "conversation_ok st2"
      using ar by (simp add: st2_def conversation_ok_append)
    have c2: "conversation st2 = conversation st @ [assistant_message (content_text content)]"
      using ar by (simp add: st2_def conversation_append)
    obtain r st3 where pc: "process_calls env (findall (content_text content)) st2 = (r, st3)"
      by (cases "process_calls env (findall (content_text content)) st2")
    from process_calls_inv [OF ok2 pc]
    have 3: "conversation_ok st3" "prefix (conversation st) (conversation st3)"
      using c2 by (auto dest: append_prefixD)
    show ?thesis
      using Inr ok2 c2 pc 3
      by (auto simp: round_eq [OF assms] Let_def st2_def [symmetric] split: option.splits)
  qed
qed

lemma conversation_loop_inv:
  assumes "conversation_loop env tools st = Some y"
  shows "conversation_ok st \<longrightarrow>
           conversation_ok (snd y) \<and> prefix (conversation st) (conversation (snd y))"
proof (rule conversation_loop.raw_induct
         [where P = "\<lambda>env tools st y. conversation_ok st \<longrightarrow>
             conversation_ok (snd y) \<and> prefix (conversation st) (conversation (snd y))",
          OF _ assms])
  fix loop :: "env \<Rightarrow> tool list \<Rightarrow> state \<Rightarrow> (exn option \<times> state) option"
    and env tools st y
  assume IH: "\<And>env tools st y. loop env tools st = Some y \<Longrightarrow>
                conversation_ok st \<longrightarrow>
                  conversation_ok (snd y) \<and> prefix (conversation st) (conversation (snd y))"
    and step: "(case round env tools st of
                  Break st' \<Rightarrow> Some (None, st')
                | Raise e st' \<Rightarrow> Some (Some e, st')
                | Continue st' \<Rightarrow> loop env tools st') = Some y"
  show "conversation_ok st \<longrightarrow>
          conversation_ok (snd y) \<and> prefix (conversation st) (conversation (snd y))"
  proof
    assume ok: "conversation_ok st"
    note ri = round_inv [OF ok, of env tools]
    show "conversation_ok (snd y) \<and> prefix (conversation st) (conversation (snd y))"
    proof (cases "round env tools st")
      case (Break st')
      with step ri show ?thesis by auto
    next
      case (Raise e st')
      with step ri show ?thesis by auto
    next
      case (Continue st')
      with step have "loop env tools st' = Some y" by simp
      from IH [OF this] Continue ri show ?thesis by auto
    qed
  qed
qed

section \<open>Running the loop\<close>

text \<open>The definitions a run on concrete collaborators unfolds.\<close>

lemmas loop_defs =
  process_query_def initial_state_def round_def generate_completion_def
  log_conversation_def conversation_def deref_def append_message_def has_role_def
  should_encourage_tools_def serializable_message_def try_call_def call_one_def
  handle_error_def content_text_def wrap_args_def strip_def startswith_def is_space_def
  code_point_def match_here_def lit_def plus_greedy_def is_word_char_def is_dot_char_def
  user_message_def assistant_message_def tool_result_message_def tool_error_message_def
  error_message_def create_system_message_def quoted_def
  format_tool_result_def str_of_def

lemmas stub_defs =
  stub_env_def stub_provider_def stub_transport_def stub_loads_def round1_text_def
  round2_text_def search_args_def search_payload_def full_disk_env_def
  failing_transport_env_def unreachable_provider_env_def plain_provider_env_def

text \<open>The fixture, run.\<close>

lemma stub_run:
  "map_option fst (process_query stub_env [] ''q'' (0, 0, 0))
     = Some [user_message ''q'', assistant_message round1_text,
             tool_result_message ''search'' ''42'', assistant_message round2_text]"
  by (simp add: conversation_loop.simps loop_defs stub_defs Let_def)

lemma initial_state_ok:
  "conversation_ok (initial_state query calls)"
  "conversation (initial_state query calls) = [user_message query]"
  by (cases calls; simp add: initial_state_def conversation_ok_def conversation_def deref_def)+

lemma handle_error_eq:
  assumes "conversation_ok st" and "prefix [user_message query] (conversation st)"
  shows "handle_error query e st = append_message (error_message e) st"
proof -
  from assms(2) obtain rest where c: "conversation st = user_message query # rest"
    by (auto simp: prefix_def)
  then have "messages st \<noteq> []"
    by (auto simp: conversation_def deref_def)
  moreover have "list_ex (has_role ''user'') (conversation st)"
    by (simp add: c user_message_def has_role_def)
  ultimately show ?thesis by (simp add: handle_error_def)
qed

text \<open>What \<open>process_query\<close> returns, from how the loop ended.\<close>

lemma process_query_eq:
  assumes "conversation_loop env tools (initial_state query calls) = Some (r, st)"
  shows "process_query env tools query calls
           = Some (conversation st @ (case r of None \<Rightarrow> [] | Some e \<Rightarrow> [error_message e]),
                   (case r of None \<Rightarrow> st | Some e \<Rightarrow> append_message (error_message e) st))"
proof -
  from conversation_loop_inv [OF assms] initial_state_ok [of query calls]
  have ok: "conversation_ok st" and p: "prefix [user_message query] (conversation st)"
    by simp_all
  show ?thesis
  proof (cases r)
    case None
    with assms show ?thesis by (simp add: process_query_def)
  next
    case (Some e)
    with assms handle_error_eq [OF ok p, of e] conversation_append [OF ok, of "error_message e"]
    show ?thesis by (simp add: process_query_def Let_def)
  qed
qed

lemma process_query_None:
  "process_query env tools query calls = None
     \<longleftrightarrow> conversation_loop env tools (initial_state query calls) = None"
  by (auto simp: process_query_def Let_def split: option.splits)

text \<open>
  \<open>next_round\<close>: one turn of the \<open>while\<close> loop leads from the state at the start
  of a completion round to the state at the start of the next one.
\<close>

definition next_round :: "env \<Rightarrow> tool list \<Rightarrow> state \<Rightarrow> state \<Rightarrow> bool" where
  "next_round env tools st st' = (round env tools st = Continue st')"

lemma next_round_loop:
  "next_round env tools st st' \<Longrightarrow> conversation_loop env tools st = conversation_loop env tools st'"
  by (subst conversation_loop.simps) (simp add: next_round_def)

lemma next_round_inv:
  assumes "next_round env tools st st'" and "conversation_ok st"
  shows "conversation_ok st' \<and> prefix (conversation st) (conversation st')"
  using round_inv [OF assms(2), of env tools] assms(1) by (simp add: next_round_def)

lemma rounds_inv:
  assumes "(next_round env tools)\<^sup>*\<^sup>* st st'" and "conversation_ok st"
  shows "conversation_ok st' \<and> prefix (conversation st) (conversation st')
         \<and> conversation_loop env tools st = conversation_loop env tools st'"
  using assms
proof (induction rule: rtranclp_induct)
  case base
  then show ?case by simp
next
  case (step y z)
  with next_round_inv [OF step.hyps(2)] next_round_loop [OF step.hyps(2)]
  show ?case by (auto dest: prefix_order.trans)
qed

section \<open>The claims about the loop\<close>








lemma loop_Continue:
  "round env tools st = Continue st' \<Longrightarrow>
     conversation_loop env tools st = conversation_loop env tools st'"
  by (subst conversation_loop.simps) simp






text \<open>From here on the scan is unfolded only where a proof asks for it.\<close>

declare findall.simps [simp del]


lemma call_one_failure:
  assumes "logs_ok env" and "conversation_ok st"
    and "json_loads env (wrap_args args) = Inl e
         \<or> (\<exists>v. json_loads env (wrap_args args) = Inr v
                \<and> call_tool env (n_tool st) name v = Inl e)"
  shows "\<exists>st'. call_one env (name, args) st = (None, st')
           \<and> conversation st' = conversation st @ [tool_error_message name e]
           \<and> n_llm st' = n_llm st"
proof -
  have ok: "conversation_ok (append_message (tool_error_message name e) s)"
    if "conversation_ok s" for s
    using that by (simp add: conversation_ok_append)
  from assms(3) show ?thesis
  proof
    assume "json_loads env (wrap_args args) = Inl e"
    with log_conversation_ok [OF assms(1) ok [OF assms(2)]] assms(2) show ?thesis
      by (simp add: call_one_def try_call_def conversation_append)
  next
    assume "\<exists>v. json_loads env (wrap_args args) = Inr v
                \<and> call_tool env (n_tool st) name v = Inl e"
    then obtain v where "json_loads env (wrap_args args) = Inr v"
      "call_tool env (n_tool st) name v = Inl e" by blast
    moreover have "conversation_ok (st\<lparr>n_tool := Suc (n_tool st)\<rparr>)"
      using assms(2) by simp
    ultimately show ?thesis
      using log_conversation_ok [OF assms(1) ok, of "st\<lparr>n_tool := Suc (n_tool st)\<rparr>"] assms(2)
      by (simp add: call_one_def try_call_def Let_def conversation_append)
  qed
qed

lemma findall_round1: \<open>findall round1_text = [(''search'', ''"query":"x"'')]\<close>
  by (simp add: findall.simps round1_text_def match_here_def lit_def plus_greedy_def is_word_char_def
        is_dot_char_def code_point_def)


lemma wrap_query: \<open>wrap_args ''"query":"x"'' = ''{"query":"x"}''\<close>
  by (simp add: wrap_args_def strip_def startswith_def is_space_def code_point_def)




text \<open>
  A call that fails whenever it is made: its arguments do not decode, or the transport
  raises on its name and decoded arguments.
\<close>

definition call_fails :: "env \<Rightarrow> string \<Rightarrow> string \<Rightarrow> exn \<Rightarrow> bool" where
  "call_fails env name args e =
     (json_loads env (wrap_args args) = Inl e
      \<or> (\<exists>v. json_loads env (wrap_args args) = Inr v \<and> (\<forall>n. call_tool env n name v = Inl e)))"

lemma call_one_ok:
  assumes "logs_ok env" and "conversation_ok st"
  shows "\<exists>st'. call_one env call st = (None, st') \<and> conversation_ok st'
           \<and> prefix (conversation st) (conversation st') \<and> n_llm st' = n_llm st"
proof -
  obtain r st' where c: "call_one env call st = (r, st')" by (cases "call_one env call st")
  obtain r1 st1 where t: "try_call env call st = (r1, st1)" by (cases "try_call env call st")
  from try_call_inv [OF assms(2) t] have ok1: "conversation_ok st1" by simp
  have "r = None"
  proof (cases r1)
    case None
    with c t show ?thesis by (simp add: call_one_def)
  next
    case (Some e)
    have "conversation_ok (append_message (tool_error_message (fst call) e) st1)"
      using ok1 by (simp add: conversation_ok_append)
    from log_conversation_ok [OF assms(1) this] Some c t show ?thesis
      by (simp add: call_one_def)
  qed
  with c call_one_inv [OF assms(2) c] show ?thesis by simp
qed

lemma process_calls_ok:
  assumes "logs_ok env"
  shows "conversation_ok st \<Longrightarrow>
           \<exists>st'. process_calls env calls st = (None, st') \<and> conversation_ok st'
             \<and> prefix (conversation st) (conversation st') \<and> n_llm st' = n_llm st"
proof (induction calls arbitrary: st)
  case Nil
  then show ?case by simp
next
  case (Cons call calls)
  from call_one_ok [OF assms Cons.prems, of call] obtain st1
    where 1: "call_one env call st = (None, st1)" "conversation_ok st1"
      "prefix (conversation st) (conversation st1)" "n_llm st1 = n_llm st"
    by blast
  from Cons.IH [OF 1(2)] obtain st'
    where 2: "process_calls env calls st1 = (None, st')" "conversation_ok st'"
      "prefix (conversation st1) (conversation st')" "n_llm st' = n_llm st1"
    by blast
  from 1 2 have "process_calls env (call # calls) st = (None, st') \<and> conversation_ok st'
             \<and> prefix (conversation st) (conversation st') \<and> n_llm st' = n_llm st"
    by (auto dest: prefix_order.trans)
  then show ?case by blast
qed

lemma prefix_member: "prefix xs ys \<Longrightarrow> x \<in> set xs \<Longrightarrow> x \<in> set ys"
  by (auto simp: prefix_def)

lemma process_calls_error_notice:
  assumes "logs_ok env" and "call_fails env name args e"
  shows "conversation_ok st \<Longrightarrow> (name, args) \<in> set calls \<Longrightarrow>
           process_calls env calls st = (None, st') \<Longrightarrow>
           tool_error_message name e \<in> set (conversation st')"
proof (induction calls arbitrary: st)
  case Nil
  then show ?case by simp
next
  case (Cons call calls)
  from call_one_ok [OF assms(1) Cons.prems(1), of call] obtain st1
    where 1: "call_one env call st = (None, st1)" "conversation_ok st1"
    by blast
  with Cons.prems(3) have rest: "process_calls env calls st1 = (None, st')" by simp
  show ?case
  proof (cases "call = (name, args)")
    case True
    from assms(2) have "json_loads env (wrap_args args) = Inl e
         \<or> (\<exists>v. json_loads env (wrap_args args) = Inr v
                \<and> call_tool env (n_tool st) name v = Inl e)"
      by (auto simp: call_fails_def)
    from call_one_failure [OF assms(1) Cons.prems(1) this] 1(1) True
    have "tool_error_message name e \<in> set (conversation st1)" by auto
    moreover from process_calls_inv [OF 1(2) rest]
    have "prefix (conversation st1) (conversation st')" by simp
    ultimately show ?thesis by (rule prefix_member [rotated])
  next
    case False
    with Cons.prems(2) have "(name, args) \<in> set calls" by simp
    from Cons.IH [OF 1(2) this rest] show ?thesis .
  qed
qed

text \<open>
  C4, as the code has it. With a log that can be written: in a round reached from the
  seed whose completion holds a call that fails (its arguments do not decode, or the
  transport raises), the turn ends with \<open>Continue\<close>, so the loop neither raises nor
  stops; the conversation then holds the notice \<open>Error using tool 'NAME': e\<close>, and
  the next completion is requested on that conversation. The failing call itself
  appends that one notice and no result.
\<close>

theorem tool_failure_contained:
  assumes "logs_ok env"
    and "(next_round env tools)\<^sup>*\<^sup>* (initial_state query calls) st"
    and "completions_create env (n_llm st)
           (system_message_sent tools (conversation st) # conversation st) = Inr content"
    and "(name, args) \<in> set (findall (content_text content))"
    and "call_fails env name args e"
  shows "\<exists>st'. round env tools st = Continue st'
           \<and> tool_error_message name e \<in> set (conversation st')
           \<and> conversation_loop env tools st = conversation_loop env tools st'
           \<and> fst (generate_completion env tools st')
               = completions_create env (Suc (n_llm st))
                   (system_message_sent tools (conversation st') # conversation st')
           \<and> map_of (tool_error_message name e) ''content''
               = Some (''Error using tool '' @ quoted name @ '': '' @ e)
           \<and> (\<forall>s e'. conversation_ok s
                  \<and> (json_loads env (wrap_args args) = Inl e'
                     \<or> (\<exists>v. json_loads env (wrap_args args) = Inr v
                            \<and> call_tool env (n_tool s) name v = Inl e'))
                \<longrightarrow> (\<exists>s'. call_one env (name, args) s = (None, s')
                       \<and> conversation s' = conversation s @ [tool_error_message name e']))"
proof -
  from rounds_inv [OF assms(2) initial_state_ok(1)] have ok: "conversation_ok st" by simp
  let ?a = "assistant_message (content_text content)"
  define st2 where "st2 = (append_message ?a (after_request tools st))\<lparr>n_log := Suc (n_log st)\<rparr>"
  have ok2: "conversation_ok st2" and n2: "n_llm st2 = Suc (n_llm st)"
    using after_request_ok [OF ok, of tools] by (simp_all add: st2_def conversation_ok_append)
  from process_calls_ok [OF assms(1) ok2, of "findall (content_text content)"] obtain st'
    where pc: "process_calls env (findall (content_text content)) st2 = (None, st')"
      and ok': "conversation_ok st'" and n': "n_llm st' = n_llm st2"
    by blast
  have log: "log_outcome env (n_log st) (conversation st @ [?a]) = None"
    using conversation_ok_roles [OF ok] by (intro log_outcome_ok [OF assms(1)]) simp
  from assms(4) have ne: "findall (content_text content) \<noteq> []" by auto
  have r: "round env tools st = Continue st'"
    using assms(3) log ne pc by (simp add: round_eq [OF ok] Let_def st2_def)
  have notice: "tool_error_message name e \<in> set (conversation st')"
    by (rule process_calls_error_notice [OF assms(1) assms(5) ok2 assms(4) pc])
  have req: "fst (generate_completion env tools st')
               = completions_create env (Suc (n_llm st))
                   (system_message_sent tools (conversation st') # conversation st')"
    by (simp add: generate_completion_request [OF ok'] n' n2)
  have content: "map_of (tool_error_message name e) ''content''
               = Some (''Error using tool '' @ quoted name @ '': '' @ e)"
    by (simp add: tool_error_message_def)
  have each: "\<forall>s e'. conversation_ok s
                  \<and> (json_loads env (wrap_args args) = Inl e'
                     \<or> (\<exists>v. json_loads env (wrap_args args) = Inr v
                            \<and> call_tool env (n_tool s) name v = Inl e'))
                \<longrightarrow> (\<exists>s'. call_one env (name, args) s = (None, s')
                       \<and> conversation s' = conversation s @ [tool_error_message name e'])"
    using call_one_failure [OF assms(1)] by blast
  from r notice loop_Continue [OF r] req content each show ?thesis by blast
qed

text \<open>A transport that fails and a log whose second write, the handler's, fails too.\<close>

definition handler_log_fails_env :: env where
  "handler_log_fails_env =
     failing_transport_env
       \<lparr>write_json := (\<lambda>n records. if n = 1 then Some ''No space left on device'' else None)\<rparr>"

theorem tool_failure_contained_witness:
  \<open>(\<exists>st'. round failing_transport_env [] (initial_state ''What is x?'' (0, 0, 0)) = Continue st'
      \<and> tool_error_message ''search'' ''Connection closed'' \<in> set (conversation st')
      \<and> fst (generate_completion failing_transport_env [] st')
          = Inr (Some round2_text))
   \<and> map_option fst (process_query failing_transport_env [] ''What is x?'' (0, 0, 0))
       = Some [user_message ''What is x?'', assistant_message round1_text,
               tool_error_message ''search'' ''Connection closed'',
               assistant_message round2_text]\<close>
proof -
  let ?st0 = "initial_state ''What is x?'' (0, 0, 0)"
  have 1: "logs_ok failing_transport_env"
    by (simp add: logs_ok_def stub_defs)
  have 2: "(next_round failing_transport_env [])\<^sup>*\<^sup>* ?st0 ?st0"
    by simp
  have 3: "completions_create failing_transport_env (n_llm ?st0)
             (system_message_sent [] (conversation ?st0) # conversation ?st0)
           = Inr (Some round1_text)"
    by (simp add: stub_defs initial_state_def)
  have 4: \<open>(''search'', ''"query":"x"'') \<in> set (findall (content_text (Some round1_text)))\<close>
    by (simp add: content_text_def findall_round1)
  have 5: \<open>call_fails failing_transport_env ''search'' ''"query":"x"'' ''Connection closed''\<close>
    by (simp add: call_fails_def wrap_query stub_defs)
  from tool_failure_contained [OF 1 2 3 4 5] obtain st'
    where "round failing_transport_env [] ?st0 = Continue st'"
      "tool_error_message ''search'' ''Connection closed'' \<in> set (conversation st')"
      "fst (generate_completion failing_transport_env [] st')
         = completions_create failing_transport_env (Suc (n_llm ?st0))
             (system_message_sent [] (conversation st') # conversation st')"
    by blast
  moreover have "completions_create failing_transport_env (Suc (n_llm ?st0)) sent
                   = Inr (Some round2_text)" for sent
    by (simp add: stub_defs)
  ultimately have "\<exists>st'. round failing_transport_env [] ?st0 = Continue st'
      \<and> tool_error_message ''search'' ''Connection closed'' \<in> set (conversation st')
      \<and> fst (generate_completion failing_transport_env [] st') = Inr (Some round2_text)"
    by auto
  moreover have "map_option fst (process_query failing_transport_env [] ''What is x?'' (0, 0, 0))
       = Some [user_message ''What is x?'', assistant_message round1_text,
               tool_error_message ''search'' ''Connection closed'',
               assistant_message round2_text]"
    by (simp add: conversation_loop.simps findall.simps loop_defs stub_defs Let_def)
  ultimately show ?thesis by blast
qed

text \<open>
  C4 as stated fails when the log write of the handler raises: the loop ends, one
  completion was requested and no other follows.
\<close>

theorem tool_failure_log_failure:
  "map_option fst (process_query handler_log_fails_env [] ''What is x?'' (0, 0, 0))
     = Some [user_message ''What is x?'', assistant_message round1_text,
             tool_error_message ''search'' ''Connection closed'',
             error_message ''No space left on device'']
   \<and> map_option (\<lambda>r. n_llm (snd r)) (process_query handler_log_fails_env [] ''What is x?'' (0, 0, 0))
       = Some 1"
  by (simp add: conversation_loop.simps findall.simps loop_defs stub_defs
        handler_log_fails_env_def Let_def)

text \<open>
  C9. In one execution of \<open>process_query\<close> the list only grows at its end. For a
  state \<open>st\<close> at the start of a completion round and a state \<open>st'\<close> at the start
  of the same or a later round: the conversation of \<open>st\<close> starts with the seed and is
  a prefix of that of \<open>st'\<close>; the completion request works on a copy and leaves the
  conversation as it is; the turn that follows extends it, as does every single call
  of the turn; and the list returned extends the conversation of every round.
\<close>

theorem append_only:
  assumes "(next_round env tools)\<^sup>*\<^sup>* (initial_state query calls) st"
    and "(next_round env tools)\<^sup>*\<^sup>* st st'"
  shows "prefix [user_message query] (conversation st)
       \<and> prefix (conversation st) (conversation st')
       \<and> generate_completion env tools st
           = (completions_create env (n_llm st)
                (system_message_sent tools (conversation st) # conversation st),
              after_request tools st)
       \<and> conversation (after_request tools st) = conversation st
       \<and> prefix (conversation st) (conversation (outcome_state (round env tools st)))
       \<and> (\<forall>conv. map_option fst (process_query env tools query calls) = Some conv
             \<longrightarrow> prefix (conversation st') conv)
       \<and> (\<forall>s call r s'. conversation_ok s \<and> call_one env call s = (r, s')
             \<longrightarrow> prefix (conversation s) (conversation s'))"
proof -
  let ?st0 = "initial_state query calls"
  from rounds_inv [OF assms(1) initial_state_ok(1)]
  have ok: "conversation_ok st" and p0: "prefix [user_message query] (conversation st)"
    and l0: "conversation_loop env tools ?st0 = conversation_loop env tools st"
    by (simp_all add: initial_state_ok(2))
  from rounds_inv [OF assms(2) ok]
  have ok': "conversation_ok st'" and p1: "prefix (conversation st) (conversation st')"
    and l1: "conversation_loop env tools st = conversation_loop env tools st'"
    by simp_all
  have returned: "prefix (conversation st') conv"
    if r: "map_option fst (process_query env tools query calls) = Some conv" for conv
  proof -
    from r have "process_query env tools query calls \<noteq> None" by auto
    then obtain res stf where l: "conversation_loop env tools ?st0 = Some (res, stf)"
      by (auto simp: process_query_None)
    then have "conversation_loop env tools st' = Some (res, stf)"
      using l0 l1 by simp
    from conversation_loop_inv [OF this] ok'
    have "prefix (conversation st') (conversation stf)" by simp
    moreover from process_query_eq [OF l] r
    have "prefix (conversation stf) conv" by auto
    ultimately show ?thesis by (rule prefix_order.trans)
  qed
  have each: "prefix (conversation s) (conversation s')"
    if "conversation_ok s \<and> call_one env call s = (r, s')" for s call r s'
    using that call_one_inv [of s env call r s'] by blast
  from p0 p1 generate_completion_request [OF ok, of env tools]
    after_request_ok(2) [OF ok, of tools] round_inv [OF ok, of env tools] returned each
  show ?thesis by blast
qed

text \<open>The state of the fixture at the start of its second round.\<close>

definition stub_state1 :: state where
  "stub_state1 =
     \<lparr>heap = [user_message ''q'', create_system_message [], assistant_message round1_text,
              tool_result_message ''search'' ''42''],
      messages = [0, 2, 3], n_llm = 1, n_tool = 1, n_log = 2\<rparr>"

lemma stub_round1:
  "round stub_env [] (initial_state ''q'' (0, 0, 0)) = Continue stub_state1"
  by (simp add: stub_state1_def findall.simps loop_defs stub_defs Let_def)

theorem append_only_witness:
  "conversation stub_state1
     = [user_message ''q'', assistant_message round1_text, tool_result_message ''search'' ''42'']
   \<and> prefix (conversation (initial_state ''q'' (0, 0, 0))) (conversation stub_state1)
   \<and> conversation (after_request [] stub_state1) = conversation stub_state1
   \<and> prefix (conversation stub_state1)
        [user_message ''q'', assistant_message round1_text,
         tool_result_message ''search'' ''42'', assistant_message round2_text]"
proof -
  let ?st0 = "initial_state ''q'' (0, 0, 0)"
  have 0: "(next_round stub_env [])\<^sup>*\<^sup>* ?st0 ?st0"
    by simp
  have 1: "(next_round stub_env [])\<^sup>*\<^sup>* ?st0 stub_state1"
    using stub_round1 by (simp add: next_round_def r_into_rtranclp)
  have 2: "(next_round stub_env [])\<^sup>*\<^sup>* stub_state1 stub_state1"
    by simp
  have c: "conversation stub_state1
     = [user_message ''q'', assistant_message round1_text, tool_result_message ''search'' ''42'']"
    by (simp add: stub_state1_def conversation_def deref_def)
  from append_only [OF 0 1]
  have a: "prefix (conversation ?st0) (conversation stub_state1)"
    by blast
  from append_only [OF 1 2] stub_run
  have b: "conversation (after_request [] stub_state1) = conversation stub_state1"
    and d: "prefix (conversation stub_state1)
        [user_message ''q'', assistant_message round1_text,
         tool_result_message ''search'' ''42'', assistant_message round2_text]"
    by blast+
  from c a b d show ?thesis by blast
qed







end
